theory Spec2Isabelle
  imports Complex_Main "HOL-Library.Sublist"
begin

section \<open>Strings\<close>

text \<open>
  A JavaScript string is a sequence of UTF-16 code units; a code unit is modelled by its
  number, so that the whitespace class of the language can be written out in full.
  \<open>str\<close> reads an ASCII literal as such a string.
\<close>

type_synonym jsstring = "nat list"

definition str :: "string \<Rightarrow> jsstring" where
  "str s = map of_char s"

text \<open>
  The class \<^verbatim>\<open>\s\<close> of regular expressions, which is also what
  \<^verbatim>\<open>String.prototype.trim\<close> strips: WhiteSpace (TAB, VT, FF, SP, NBSP, ZWNBSP and
  the space separators) and LineTerminator (LF, CR, LS, PS).
\<close>

definition is_whitespace :: "nat \<Rightarrow> bool" where
  "is_whitespace c \<longleftrightarrow>
     c = 0x09 \<or> c = 0x0A \<or> c = 0x0B \<or> c = 0x0C \<or> c = 0x0D \<or> c = 0x20 \<or> c = 0xA0 \<or>
     c = 0x1680 \<or> (0x2000 \<le> c \<and> c \<le> 0x200A) \<or> c = 0x2028 \<or> c = 0x2029 \<or>
     c = 0x202F \<or> c = 0x205F \<or> c = 0x3000 \<or> c = 0xFEFF"

text \<open>The class \<^verbatim>\<open>[\n\.!?]\<close> of \<^verbatim>\<open>splitSentences\<close>.\<close>

definition is_terminator :: "nat \<Rightarrow> bool" where
  "is_terminator c \<longleftrightarrow> c = 0x0A \<or> c = 0x2E \<or> c = 0x21 \<or> c = 0x3F"

text \<open>
  \<^verbatim>\<open>s.split(/[C]+/)\<close> for a character class \<open>C\<close>: the next match is the first
  maximal run of characters of the class; the text before it is a piece (an empty one when
  the string starts with a run) and the search goes on behind the run; when nothing
  matches any more the rest is the last piece (an empty one when the string ends with a
  run, and the only piece of the empty string).
\<close>

function split_run :: "('a \<Rightarrow> bool) \<Rightarrow> 'a list \<Rightarrow> 'a list list" where
  "split_run P s =
     (case dropWhile (\<lambda>c. \<not> P c) s of
        [] \<Rightarrow> [s]
      | c # r \<Rightarrow> takeWhile (\<lambda>c. \<not> P c) s # split_run P (dropWhile P r))"
  by pat_completeness auto
termination
proof (relation "measure (\<lambda>(P, s). length s)")
  show "wf (measure (\<lambda>(P :: 'a \<Rightarrow> bool, s). length s))" by simp
next
  fix P :: "'a \<Rightarrow> bool" and s c r
  assume d: "dropWhile (\<lambda>c. \<not> P c) s = c # r"
  have "length (dropWhile P r) \<le> length r"
    by (rule length_dropWhile_le)
  moreover have "length (c # r) \<le> length s"
    unfolding d [symmetric] by (rule length_dropWhile_le)
  ultimately show "((P, dropWhile P r), (P, s)) \<in> measure (\<lambda>(P, s). length s)"
    by simp
qed

declare split_run.simps [simp del]

text \<open>\<^verbatim>\<open>String.prototype.trim\<close>.\<close>

definition trim :: "jsstring \<Rightarrow> jsstring" where
  "trim s = rev (dropWhile is_whitespace (rev (dropWhile is_whitespace s)))"

text \<open>
  \<^verbatim>\<open>input.split(/[\n\.!?]+/).map((sentence) => sentence.trim()).filter(Boolean)\<close>:
  a string is truthy when it is not empty.
\<close>

definition splitSentences :: "jsstring \<Rightarrow> jsstring list" where
  "splitSentences input =
     filter (\<lambda>sentence. sentence \<noteq> []) (map trim (split_run is_terminator input))"


text \<open>
  \<^verbatim>\<open>Array.prototype.join(" ")\<close> and the whitespace-separated words of a text: the
  non-empty pieces of \<^verbatim>\<open>text.split(/\s+/)\<close>. Neither is called by the program; they
  are what the properties of \<^verbatim>\<open>wrapLines\<close> are stated with.
\<close>

fun join_space :: "jsstring list \<Rightarrow> jsstring" where
  "join_space [] = []"
| "join_space [x] = x"
| "join_space (x # y # ys) = x @ [0x20] @ join_space (y # ys)"

definition words_of :: "jsstring \<Rightarrow> jsstring list" where
  "words_of text = filter (\<lambda>w. w \<noteq> []) (split_run is_whitespace text)"

section \<open>Palettes and the timeline\<close>

type_synonym palette = "string \<times> string"

text \<open>
  \<^verbatim>\<open>STYLE_PALETTES\<close>, in the order of its keys. A style identifier is a string: the
  type \<^verbatim>\<open>VisualStyle\<close> exists at compile time only, and at run time any string can
  index the table. \<open>map_of\<close> looks an identifier up among the table's own keys.
\<close>

definition STYLE_PALETTES :: "(string \<times> palette list) list" where
  "STYLE_PALETTES =
    [(''cosmic'',
        [(''#1b0033'', ''#5c00b3''), (''#0b1a4a'', ''#170e75''),
         (''#2a0a4a'', ''#4a117a''), (''#05010f'', ''#2d1c7a'')]),
     (''tropical'',
        [(''#ff8a5c'', ''#ffd452''), (''#ff6b6b'', ''#ffd166''),
         (''#ffbe0b'', ''#ffb4a2''), (''#ff9f1c'', ''#ffbf69'')]),
     (''noir'',
        [(''#0b0b0b'', ''#1f1f1f''), (''#111111'', ''#2b2b2b''),
         (''#090909'', ''#202020''), (''#131313'', ''#292929'')]),
     (''sunrise'',
        [(''#ff758f'', ''#ffe2e2''), (''#ff9b73'', ''#ffc773''),
         (''#ff6f91'', ''#ff9671''), (''#f9ada0'', ''#f8ede3'')]),
     (''aqua'',
        [(''#003f5c'', ''#2f4b7c''), (''#005377'', ''#3185fc''),
         (''#2f4b7c'', ''#00b8a9''), (''#1f4068'', ''#2a9d8f'')]),
     (''mono'',
        [(''#111827'', ''#374151''), (''#0f172a'', ''#1f2937''),
         (''#18181b'', ''#27272a''), (''#1a202c'', ''#2d3748'')])]"

definition VisualStyle :: "string set" where
  "VisualStyle = {''cosmic'', ''tropical'', ''noir'', ''sunrise'', ''aqua'', ''mono''}"

text \<open>
  The table is a plain object, so indexing it also finds the properties every object
  inherits from \<^verbatim>\<open>Object.prototype\<close>. These are their names. The value found is a
  function, or for \<^verbatim>\<open>__proto__\<close> the prototype object itself: none of them is
  \<^verbatim>\<open>undefined\<close>, and none has an element at a numeric index. (Properties that other
  code may have added to the prototype are not modelled.)
\<close>

definition Object_prototype :: "string list" where
  "Object_prototype =
     [''constructor'', ''__defineGetter__'', ''__defineSetter__'', ''hasOwnProperty'',
      ''__lookupGetter__'', ''__lookupSetter__'', ''isPrototypeOf'',
      ''propertyIsEnumerable'', ''toString'', ''valueOf'', ''__proto__'',
      ''toLocaleString'']"

text \<open>
  What the program can throw, with the message the \<^verbatim>\<open>catch\<close> block shows (for
  the \<^verbatim>\<open>TypeError\<close> the wording is the engine's).
\<close>

datatype js_error =
    TypeError
  | NoCanvasContext
  | NoMediaRecorder
  | NoMimeType
  | NoSurface
  | RecordingError

fun message :: "js_error \<Rightarrow> string" where
  "message TypeError = ''Cannot read properties of undefined''"
| "message NoCanvasContext = ''Canvas context is not available.''"
| "message NoMediaRecorder = ''MediaRecorder is not available in this environment.''"
| "message NoMimeType = ''No supported video MIME type found for this browser.''"
| "message NoSurface = ''The rendering surface could not be prepared.''"
| "message RecordingError = ''An unknown recording error occurred.''"

text \<open>
  A slice of the timeline. The palette is \<open>None\<close> when the program leaves it
  \<^verbatim>\<open>undefined\<close>.
\<close>

record TimelineSlice =
  sentence :: jsstring
  index :: nat
  palette :: "palette option"

text \<open>
  \<^verbatim>\<open>createPaletteTimeline\<close>. Nothing checks the style.
  \<^item> For a key of the table, \<^verbatim>\<open>palettes\<close> is its list, and
    \<^verbatim>\<open>palettes[index % palettes.length]\<close> is an element of it.
  \<^item> For a name inherited from \<^verbatim>\<open>Object.prototype\<close>, \<^verbatim>\<open>palettes\<close> is a function or
    the prototype object: \<^verbatim>\<open>palettes.length\<close> is a number or \<^verbatim>\<open>undefined\<close>, nothing is
    thrown, and \<^verbatim>\<open>palettes[...]\<close> is \<^verbatim>\<open>undefined\<close> for every index.
  \<^item> For any other identifier \<^verbatim>\<open>palettes\<close> is \<^verbatim>\<open>undefined\<close>, and the first call of the
    mapping function fails on \<^verbatim>\<open>palettes.length\<close>. Over an empty array the mapping
    function is never called.
\<close>

definition createPaletteTimeline :: "jsstring list \<Rightarrow> string \<Rightarrow> js_error + TimelineSlice list" where
  "createPaletteTimeline sentences style =
     (case map_of STYLE_PALETTES style of
        Some palettes \<Rightarrow>
          Inr (map (\<lambda>(i, s). \<lparr>sentence = s, index = i,
                               palette = Some (palettes ! (i mod length palettes))\<rparr>)
                 (enumerate 0 sentences))
      | None \<Rightarrow>
          if style \<in> set Object_prototype then
            Inr (map (\<lambda>(i, s). \<lparr>sentence = s, index = i, palette = None\<rparr>)
                   (enumerate 0 sentences))
          else if sentences = [] then Inr [] else Inl TypeError)"

section \<open>Line wrapping\<close>

text \<open>
  \<^verbatim>\<open>wrapLines\<close>. The drawing context enters through \<^verbatim>\<open>ctx.measureText(s).width\<close>
  only, which is the parameter \<open>measureText\<close>. One round of the loop over the words is
  \<open>wrap_step\<close>, on the pair of the lines pushed so far and the line being built.
\<close>

definition wrap_step ::
  "(jsstring \<Rightarrow> real) \<Rightarrow> real \<Rightarrow> jsstring list \<times> jsstring \<Rightarrow> jsstring \<Rightarrow> jsstring list \<times> jsstring" where
  "wrap_step measureText maxWidth st word =
     (case st of (lines, line) \<Rightarrow>
        let tentative = (if line \<noteq> [] then line @ [0x20] @ word else word)
        in if measureText tentative > maxWidth \<and> line \<noteq> []
           then (lines @ [line], word)
           else (lines, tentative))"

definition wrapLines :: "(jsstring \<Rightarrow> real) \<Rightarrow> jsstring \<Rightarrow> real \<Rightarrow> jsstring list" where
  "wrapLines measureText text maxWidth =
     (case foldl (wrap_step measureText maxWidth) ([], []) (split_run is_whitespace text) of
        (lines, line) \<Rightarrow> if line \<noteq> [] then lines @ [line] else lines)"

section \<open>The frame compositor\<close>

text \<open>
  In the compositor numbers are modelled as reals: its arithmetic is exact there, and
  the rounding of the double-precision operations is left out.

  The drawing surface: the canvas with its size, whether \<^verbatim>\<open>getContext("2d")\<close> yields a
  context, and of the context's state what carries an opacity: \<^verbatim>\<open>globalAlpha\<close> and the
  alpha channel of \<^verbatim>\<open>fillStyle\<close> and \<^verbatim>\<open>strokeStyle\<close>. \<open>opacities\<close> records every
  opacity the program hands to the surface, in the order of the assignments. Paths,
  positions and fonts are left out.
\<close>

datatype opacity = GlobalAlpha real | FillAlpha real | StrokeAlpha real

record surface =
  width :: real
  height :: real
  context2d :: bool
  globalAlpha :: real
  fillStyle :: real
  strokeStyle :: real
  opacities :: "opacity list"

definition set_globalAlpha :: "real \<Rightarrow> surface \<Rightarrow> surface" where
  "set_globalAlpha v ctx = ctx\<lparr>globalAlpha := v, opacities := opacities ctx @ [GlobalAlpha v]\<rparr>"

definition set_fillStyle :: "real \<Rightarrow> surface \<Rightarrow> surface" where
  "set_fillStyle a ctx = ctx\<lparr>fillStyle := a, opacities := opacities ctx @ [FillAlpha a]\<rparr>"

definition set_strokeStyle :: "real \<Rightarrow> surface \<Rightarrow> surface" where
  "set_strokeStyle a ctx = ctx\<lparr>strokeStyle := a, opacities := opacities ctx @ [StrokeAlpha a]\<rparr>"

text \<open>
  \<^verbatim>\<open>drawGradientBackground\<close>: the gradient of two opaque colours, then the wave bands
  in \<^verbatim>\<open>rgba(255, 255, 255, 0.08)\<close>.
\<close>

definition drawGradientBackground :: "surface \<Rightarrow> surface" where
  "drawGradientBackground ctx = set_fillStyle 0.08 (set_fillStyle 1 ctx)"

definition titleOpacity :: "real \<Rightarrow> real" where
  "titleOpacity sliceProgress = sin (pi * min sliceProgress (1 - sliceProgress))"

definition title_alpha :: "real \<Rightarrow> real" where
  "title_alpha sliceProgress = max 0.2 (titleOpacity sliceProgress)"

text \<open>
  The opacity of caption line \<open>lineIndex\<close> of \<open>n\<close> lines: \<^verbatim>\<open>alpha\<close> of the source,
  then \<^verbatim>\<open>Math.max(alpha, 0.15)\<close>.
\<close>

definition line_alpha :: "real \<Rightarrow> nat \<Rightarrow> nat \<Rightarrow> real" where
  "line_alpha sliceProgress lineIndex n =
     (let alpha = max 0 (1 - \<bar>sliceProgress - real lineIndex / max 1 (real n - 1)\<bar> * 2.4)
      in max alpha 0.15)"

definition oscillation :: "real \<Rightarrow> real" where
  "oscillation sliceProgress = sin (sliceProgress * pi * 2)"

definition satelliteCount :: nat where
  "satelliteCount = 6"

definition satellite_angle :: "real \<Rightarrow> nat \<Rightarrow> real" where
  "satellite_angle sliceProgress i =
     sliceProgress * pi * 2 + (real i / real satelliteCount) * pi * 2"

text \<open>The alpha channel written into the fill colour of satellite \<open>i\<close>.\<close>

definition satellite_alpha :: "real \<Rightarrow> nat \<Rightarrow> real" where
  "satellite_alpha sliceProgress i =
     0.3 + 0.4 * sin (satellite_angle sliceProgress i + oscillation sliceProgress)"

text \<open>
  The body of the frame loop of \<^verbatim>\<open>renderTimelineToVideo\<close>, up to the reset of
  \<^verbatim>\<open>globalAlpha\<close>, for a slice that has a palette (the loop below fails before anything
  is drawn when it has none).
\<close>

definition draw_frame :: "(jsstring \<Rightarrow> real) \<Rightarrow> TimelineSlice \<Rightarrow> real \<Rightarrow> surface \<Rightarrow> surface" where
  "draw_frame measureText slice sliceProgress ctx =
     (let c1 = drawGradientBackground ctx;
          c2 = set_fillStyle 0.8 (set_globalAlpha (title_alpha sliceProgress) c1);
          c3 = set_fillStyle 0.04 (set_globalAlpha 1 c2);
          lines = wrapLines measureText (sentence slice) (width ctx * 0.7);
          c4 = set_fillStyle 0.9 c3;
          c5 = foldl (\<lambda>c lineIndex.
                  set_globalAlpha (line_alpha sliceProgress lineIndex (length lines)) c)
                c4 [0..<length lines];
          c6 = set_strokeStyle 0.35 (set_globalAlpha 0.4 c5);
          c7 = set_globalAlpha 0.9 c6;
          c8 = foldl (\<lambda>c i. set_fillStyle (satellite_alpha sliceProgress i) c)
                c7 [0..<satelliteCount]
      in set_globalAlpha 1 c8)"

text \<open>
  The canvas of the page, \<^verbatim>\<open><canvas width={1280} height={720}>\<close>, with a fresh context:
  opaque black fill and stroke, \<^verbatim>\<open>globalAlpha\<close> 1.
\<close>

definition page_canvas :: surface where
  "page_canvas = \<lparr>width = 1280, height = 720, context2d = True, globalAlpha = 1,
     fillStyle = 1, strokeStyle = 1, opacities = []\<rparr>"

text \<open>An opacity handed to the surface lies in the range from 0 to 1.\<close>

fun in_unit :: "opacity \<Rightarrow> bool" where
  "in_unit (GlobalAlpha v) \<longleftrightarrow> 0 \<le> v \<and> v \<le> 1"
| "in_unit (FillAlpha v) \<longleftrightarrow> 0 \<le> v \<and> v \<le> 1"
| "in_unit (StrokeAlpha v) \<longleftrightarrow> 0 \<le> v \<and> v \<le> 1"

section \<open>The render driver\<close>

record GenerationSettings =
  fps :: real
  segmentSeconds :: real
  style :: string

text \<open>
  The frames of a slice and of the run, \<^verbatim>\<open>fps * settings.segmentSeconds\<close> and
  \<^verbatim>\<open>segmentFrames * timeline.length\<close>, as exact products.
\<close>

definition segmentFrames :: "GenerationSettings \<Rightarrow> real" where
  "segmentFrames settings = fps settings * segmentSeconds settings"

definition totalFrames :: "GenerationSettings \<Rightarrow> TimelineSlice list \<Rightarrow> real" where
  "totalFrames settings timeline = segmentFrames settings * real (length timeline)"

text \<open>
  The remainder operator \<^verbatim>\<open>%\<close> on numbers: the quotient is truncated towards zero.
  (A zero divisor gives \<^verbatim>\<open>NaN\<close> in the program; the loop never divides by zero, since
  it runs only when \<^verbatim>\<open>totalFrames\<close> is positive.)
\<close>

definition js_rem :: "real \<Rightarrow> real \<Rightarrow> real" where
  "js_rem a b = a - b * of_int (if 0 \<le> a / b then \<lfloor>a / b\<rfloor> else \<lceil>a / b\<rceil>)"

text \<open>
  The driver's own arithmetic is that of double-precision numbers: a product or a quotient
  is the exact one rounded to the nearest number of the format. The rounding is the
  parameter \<open>fl\<close> of the driver; the theorems state what they need of it. The counter of
  the frames is a whole number, and the remainder \<^verbatim>\<open>%\<close> is exact in that format.

  The \<^verbatim>\<open>while\<close> loop. The result is what the loop threw, the surface, and the list of
  the values passed to \<^verbatim>\<open>onProgress\<close>. Reading \<^verbatim>\<open>slice.palette\<close> fails when
  \<^verbatim>\<open>timeline[sliceIndex]\<close> is \<^verbatim>\<open>undefined\<close>; and \<^verbatim>\<open>drawGradientBackground\<close> fails on
  \<^verbatim>\<open>colors[0]\<close>, before it draws, when the palette of the slice is \<^verbatim>\<open>undefined\<close>. The
  pause between two frames is left out.
\<close>

function render_loop ::
  "(real \<Rightarrow> real) \<Rightarrow> (jsstring \<Rightarrow> real) \<Rightarrow> TimelineSlice list \<Rightarrow> real \<Rightarrow> real \<Rightarrow> nat
     \<Rightarrow> surface \<Rightarrow> real list \<Rightarrow> js_error option \<times> surface \<times> real list" where
  "render_loop fl measureText timeline segFrames totFrames currentFrame ctx reported =
     (if real currentFrame < totFrames then
        (let sliceIndex = \<lfloor>fl (real currentFrame / segFrames)\<rfloor>;
             frameInSlice = js_rem (real currentFrame) segFrames;
             sliceProgress = fl (frameInSlice / segFrames)
         in if 0 \<le> sliceIndex \<and> nat sliceIndex < length timeline then
              (case palette (timeline ! nat sliceIndex) of
                 None \<Rightarrow> (Some TypeError, ctx, reported)
               | Some colors \<Rightarrow>
                   render_loop fl measureText timeline segFrames totFrames (currentFrame + 1)
                     (draw_frame measureText (timeline ! nat sliceIndex) sliceProgress ctx)
                     (reported @ [fl (real (currentFrame + 1) / totFrames)]))
            else (Some TypeError, ctx, reported))
      else (None, ctx, reported))"
  by pat_completeness auto
termination
  by (relation "measure (\<lambda>(f, m, tl, sf, tf, currentFrame, c, r). nat \<lceil>tf\<rceil> - currentFrame)")
     (auto simp: zless_nat_eq_int_zless less_ceiling_iff intro!: diff_less_mono2)

declare render_loop.simps [simp del]

text \<open>
  \<^verbatim>\<open>renderTimelineToVideo\<close>. \<^verbatim>\<open>segmentFrames\<close> and \<^verbatim>\<open>totalFrames\<close> of the source are
  the two products as the arithmetic rounds them.
\<close>

definition renderTimelineToVideo ::
  "(real \<Rightarrow> real) \<Rightarrow> (jsstring \<Rightarrow> real) \<Rightarrow> surface \<Rightarrow> TimelineSlice list \<Rightarrow> GenerationSettings
     \<Rightarrow> js_error option \<times> surface \<times> real list" where
  "renderTimelineToVideo fl measureText canvas timeline settings =
     (if \<not> context2d canvas then (Some NoCanvasContext, canvas, [])
      else
        let segFrames = fl (segmentFrames settings);
            totFrames = fl (segFrames * real (length timeline))
        in render_loop fl measureText timeline segFrames totFrames 0 canvas [])"

section \<open>The page component\<close>

datatype GenerationPhase = Idle | Preparing | Rendering | Encoding | Complete | Error

type_synonym url = nat

text \<open>The calls of \<^verbatim>\<open>URL.createObjectURL\<close> and \<^verbatim>\<open>URL.revokeObjectURL\<close>.\<close>

datatype url_call = Create url | Revoke url

text \<open>
  The state of \<^verbatim>\<open>Home\<close>: its state variables (the three of the settings in one record),
  and beside them
  \<^item> \<open>url_calls\<close>, the calls made to the URL registry so far, in order;
  \<^item> \<open>phases_set\<close>, the values passed to \<^verbatim>\<open>setPhase\<close> so far, in order;
  \<^item> \<open>awaiting_render\<close> and \<open>awaiting_blob\<close>, the number of calls of
    \<^verbatim>\<open>handleGenerate\<close> suspended at \<^verbatim>\<open>await renderTimelineToVideo(...)\<close> and at
    \<^verbatim>\<open>await videoPromise\<close>.
\<close>

record home =
  prompt :: jsstring
  phase :: GenerationPhase
  progress :: real
  error :: "string option"
  videoUrl :: "url option"
  settings :: GenerationSettings
  url_calls :: "url_call list"
  phases_set :: "GenerationPhase list"
  awaiting_render :: nat
  awaiting_blob :: nat

definition DEFAULT_PROMPT :: jsstring where
  "DEFAULT_PROMPT = str ''A flowing introduction for an AI demo reel that highlights innovation, creativity, and futuristic design with subtle particle motion and layered typography.''"

definition initial :: home where
  "initial = \<lparr>prompt = DEFAULT_PROMPT, phase = Idle, progress = 0, error = None,
     videoUrl = None,
     settings = \<lparr>fps = 24, segmentSeconds = 3, style = ''cosmic''\<rparr>,
     url_calls = [], phases_set = [], awaiting_render = 0, awaiting_blob = 0\<rparr>"

definition setPhase :: "GenerationPhase \<Rightarrow> home \<Rightarrow> home" where
  "setPhase p s = s\<lparr>phase := p, phases_set := phases_set s @ [p]\<rparr>"

definition revokeObjectURL :: "url \<Rightarrow> home \<Rightarrow> home" where
  "revokeObjectURL u s = s\<lparr>url_calls := url_calls s @ [Revoke u]\<rparr>"

text \<open>\<^verbatim>\<open>URL.createObjectURL\<close> returns a URL that no earlier call returned.\<close>

fun is_Create :: "url_call \<Rightarrow> bool" where
  "is_Create (Create u) = True"
| "is_Create (Revoke u) = False"

definition fresh_url :: "home \<Rightarrow> url" where
  "fresh_url s = length (filter is_Create (url_calls s))"

definition createObjectURL :: "home \<Rightarrow> url \<times> home" where
  "createObjectURL s = (fresh_url s, s\<lparr>url_calls := url_calls s @ [Create (fresh_url s)]\<rparr>)"

text \<open>
  The state updates of one synchronous stretch of code are applied together, and the
  component renders again. The effect \<^verbatim>\<open>useEffect(() => () => {...}, [videoUrl])\<close> is
  then set up anew when \<^verbatim>\<open>videoUrl\<close> has changed, and its previous cleanup runs first:
  it revokes the URL that \<^verbatim>\<open>videoUrl\<close> held when that cleanup was made, which is the
  value before the update.
\<close>

definition commit :: "home \<Rightarrow> home \<Rightarrow> home" where
  "commit before after =
     (if videoUrl after \<noteq> videoUrl before then
        (case videoUrl before of Some u \<Rightarrow> revokeObjectURL u after | None \<Rightarrow> after)
      else after)"

definition sentences :: "home \<Rightarrow> jsstring list" where
  "sentences s = splitSentences (prompt s)"

definition canGenerate :: "home \<Rightarrow> bool" where
  "canGenerate s \<longleftrightarrow> length (sentences s) > 0"

text \<open>
  \<^verbatim>\<open>handleGenerate\<close>, from the click to its first suspension. \<open>fault\<close> is what the
  preparation throws, if anything. \<^verbatim>\<open>videoUrl\<close> in the body is the value of the render
  the handler belongs to, \<open>videoUrl s\<close>, whatever \<^verbatim>\<open>setVideoUrl\<close> was called with
  before.
\<close>

definition handleGenerate :: "js_error option \<Rightarrow> home \<Rightarrow> home" where
  "handleGenerate fault s =
     (if \<not> canGenerate s then s
      else
        let s1 = (setPhase Preparing (s\<lparr>videoUrl := None, error := None\<rparr>))\<lparr>progress := 0\<rparr>;
            s2 = (case videoUrl s of
                    Some u \<Rightarrow> (revokeObjectURL u s1)\<lparr>videoUrl := None\<rparr>
                  | None \<Rightarrow> s1);
            s3 = (case fault of
                    Some e \<Rightarrow> (setPhase Error s2)\<lparr>error := Some (message e)\<rparr>
                  | None \<Rightarrow> (setPhase Rendering s2)\<lparr>awaiting_render := awaiting_render s2 + 1\<rparr>)
        in commit s s3)"

text \<open>\<^verbatim>\<open>(ratio) => setProgress(ratio)\<close>, called once for each frame.\<close>

definition onProgress :: "real \<Rightarrow> home \<Rightarrow> home" where
  "onProgress ratio s = s\<lparr>progress := ratio\<rparr>"

text \<open>
  \<^verbatim>\<open>handleGenerate\<close> resumed when \<^verbatim>\<open>renderTimelineToVideo\<close> has settled, with what
  it threw (if anything), and resumed when \<^verbatim>\<open>videoPromise\<close> has settled.
\<close>

definition render_settled :: "js_error option \<Rightarrow> home \<Rightarrow> home" where
  "render_settled thrown s =
     (let s0 = s\<lparr>awaiting_render := awaiting_render s - 1\<rparr>
      in case thrown of
           Some e \<Rightarrow> commit s ((setPhase Error s0)\<lparr>error := Some (message e)\<rparr>)
         | None \<Rightarrow> commit s ((setPhase Encoding s0)\<lparr>awaiting_blob := awaiting_blob s0 + 1\<rparr>))"

definition blob_settled :: "js_error option \<Rightarrow> home \<Rightarrow> home" where
  "blob_settled thrown s =
     (let s0 = s\<lparr>awaiting_blob := awaiting_blob s - 1\<rparr>
      in case thrown of
           Some e \<Rightarrow> commit s ((setPhase Error s0)\<lparr>error := Some (message e)\<rparr>)
         | None \<Rightarrow>
             (case createObjectURL ((setPhase Complete s0)\<lparr>progress := 1\<rparr>) of
                (u, s1) \<Rightarrow> commit s (s1\<lparr>videoUrl := Some u\<rparr>)))"

definition reset :: "home \<Rightarrow> home" where
  "reset s = commit s ((setPhase Idle (s\<lparr>videoUrl := None, progress := 0\<rparr>))\<lparr>error := None\<rparr>)"

text \<open>
  What can happen to the page. The Render button is disabled while there is no sentence or
  the phase is \<^verbatim>\<open>rendering\<close> or \<^verbatim>\<open>encoding\<close>; the Reset button is always enabled.
  \<open>fire\<close> is \<open>None\<close> when the event cannot happen in the state.
\<close>

datatype event =
    ClickRender "js_error option"
  | FrameDrawn real
  | RenderSettled "js_error option"
  | BlobSettled "js_error option"
  | ClickReset
  | EditPrompt jsstring
  | ChooseSettings GenerationSettings

fun fire :: "event \<Rightarrow> home \<Rightarrow> home option" where
  "fire (ClickRender fault) s =
     (if \<not> canGenerate s \<or> phase s = Rendering \<or> phase s = Encoding then None
      else Some (handleGenerate fault s))"
| "fire (FrameDrawn ratio) s =
     (if awaiting_render s > 0 then Some (onProgress ratio s) else None)"
| "fire (RenderSettled thrown) s =
     (if awaiting_render s > 0 then Some (render_settled thrown s) else None)"
| "fire (BlobSettled thrown) s =
     (if awaiting_blob s > 0 then Some (blob_settled thrown s) else None)"
| "fire ClickReset s = Some (reset s)"
| "fire (EditPrompt text) s = Some (s\<lparr>prompt := text\<rparr>)"
| "fire (ChooseSettings g) s = Some (s\<lparr>settings := g\<rparr>)"

fun run :: "event list \<Rightarrow> home \<Rightarrow> home option" where
  "run [] s = Some s"
| "run (e # es) s = (case fire e s of None \<Rightarrow> None | Some s' \<Rightarrow> run es s')"

text \<open>No Reset is clicked while a call of \<^verbatim>\<open>handleGenerate\<close> is suspended.\<close>

fun undisturbed :: "event list \<Rightarrow> home \<Rightarrow> bool" where
  "undisturbed [] s = True"
| "undisturbed (e # es) s =
     ((e = ClickReset \<longrightarrow> awaiting_render s = 0 \<and> awaiting_blob s = 0) \<and>
      (case fire e s of None \<Rightarrow> True | Some s' \<Rightarrow> undisturbed es s'))"

text \<open>
  The transitions of the phase as the specification lists them: one stage forward along
  idle, preparing, rendering, encoding, complete, or from a phase other than idle into error.
\<close>

definition spec_transition :: "GenerationPhase \<Rightarrow> GenerationPhase \<Rightarrow> bool" where
  "spec_transition a b \<longleftrightarrow>
     a = Idle \<and> b = Preparing \<or> a = Preparing \<and> b = Rendering \<or>
     a = Rendering \<and> b = Encoding \<or> a = Encoding \<and> b = Complete \<or>
     a \<noteq> Idle \<and> b = Error"

text \<open>
  The same, together with a start from complete or error, and the reset into idle.
\<close>

fun page_transition :: "GenerationPhase \<Rightarrow> GenerationPhase \<Rightarrow> bool" where
  "page_transition a Idle = True"
| "page_transition a Preparing = (a = Idle \<or> a = Complete \<or> a = Error)"
| "page_transition a Rendering = (a = Preparing)"
| "page_transition a Encoding = (a = Rendering)"
| "page_transition a Complete = (a = Encoding)"
| "page_transition a Error = (a = Preparing \<or> a = Rendering \<or> a = Encoding)"

text \<open>
  Between two events the page is settled when the suspended calls of
  \<^verbatim>\<open>handleGenerate\<close> are those the phase tells of: one at the rendering while the phase
  is rendering, one at the encoding while it is encoding, and none otherwise; the phase
  is the last one set, and is not preparing.
\<close>

definition settled :: "home \<Rightarrow> bool" where
  "settled s \<longleftrightarrow>
     phase s \<noteq> Preparing \<and>
     awaiting_render s = (if phase s = Rendering then 1 else 0) \<and>
     awaiting_blob s = (if phase s = Encoding then 1 else 0) \<and>
     last (Idle # phases_set s) = phase s"

section \<open>Splitting at runs of separators\<close>

lemma split_run_no_match:
  assumes "\<forall>x\<in>set s. \<not> P x"
  shows "split_run P s = [s]"
proof -
  from assms have none: "dropWhile (\<lambda>c. \<not> P c) s = []" by simp
  show ?thesis by (subst split_run.simps) (simp only: none list.case)
qed

lemma split_run_match:
  assumes "dropWhile (\<lambda>c. \<not> P c) s = c # r"
  shows "split_run P s = takeWhile (\<lambda>c. \<not> P c) s # split_run P (dropWhile P r)"
  using assms by (subst split_run.simps) simp

lemma split_run_leading:
  assumes "P c"
  shows "split_run P (c # r) = [] # split_run P (dropWhile P r)"
  using assms by (subst split_run.simps) simp

lemma pieces_dropWhile:
  assumes "f [] = []"
  shows "filter (\<lambda>x. x \<noteq> []) (map f (split_run P (dropWhile P b))) =
         filter (\<lambda>x. x \<noteq> []) (map f (split_run P b))"
proof (cases b)
  case Nil
  then show ?thesis by simp
next
  case (Cons d b')
  show ?thesis
  proof (cases "P d")
    case True
    then show ?thesis using Cons assms by (simp add: split_run_leading)
  next
    case False
    then show ?thesis using Cons by simp
  qed
qed

lemma pieces_append:
  assumes "P c" and "f [] = []"
  shows "filter (\<lambda>x. x \<noteq> []) (map f (split_run P (a @ c # b))) =
         filter (\<lambda>x. x \<noteq> []) (map f (split_run P a)) @
         filter (\<lambda>x. x \<noteq> []) (map f (split_run P b))"
  using assms
proof (induction P a rule: split_run.induct)
  case (1 P s)
  show ?case
  proof (cases "dropWhile (\<lambda>c. \<not> P c) s")
    case Nil
    then have clean: "\<forall>x\<in>set s. \<not> P x" by simp
    then have dw: "dropWhile (\<lambda>c. \<not> P c) (s @ c # b) = c # b"
      using "1.prems"(1) by (simp add: dropWhile_append)
    have tw: "takeWhile (\<lambda>c. \<not> P c) (s @ c # b) = s"
      using clean "1.prems"(1) by (simp add: takeWhile_append)
    have "split_run P (s @ c # b) = s # split_run P (dropWhile P b)"
      using split_run_match [OF dw] tw by simp
    moreover have "split_run P s = [s]"
      using clean by (rule split_run_no_match)
    ultimately show ?thesis
      using pieces_dropWhile [of f P b] "1.prems"(2) by simp
  next
    case (Cons d r)
    then have hit: "\<exists>x\<in>set s. P x"
      by (metis dropWhile_eq_Nil_conv list.distinct(1))
    have dw: "dropWhile (\<lambda>c. \<not> P c) (s @ c # b) = d # (r @ c # b)"
      using hit Cons by (auto simp: dropWhile_append)
    have tw: "takeWhile (\<lambda>c. \<not> P c) (s @ c # b) = takeWhile (\<lambda>c. \<not> P c) s"
      using hit by (auto simp: takeWhile_append)
    have left: "split_run P s = takeWhile (\<lambda>c. \<not> P c) s # split_run P (dropWhile P r)"
      using Cons by (rule split_run_match)
    have whole: "split_run P (s @ c # b) =
        takeWhile (\<lambda>c. \<not> P c) s # split_run P (dropWhile P (r @ c # b))"
      using split_run_match [OF dw] tw by simp
    have rest: "filter (\<lambda>x. x \<noteq> []) (map f (split_run P (dropWhile P (r @ c # b)))) =
        filter (\<lambda>x. x \<noteq> []) (map f (split_run P (dropWhile P r))) @
        filter (\<lambda>x. x \<noteq> []) (map f (split_run P b))"
    proof (cases "\<forall>x\<in>set r. P x")
      case True
      then have e1: "dropWhile P (r @ c # b) = dropWhile P b"
        using "1.prems"(1) by (simp add: dropWhile_append)
      have e2: "dropWhile P r = []"
        using True by simp
      have e3: "split_run P [] = [[]]"
        by (simp add: split_run_no_match)
      show ?thesis
        unfolding e1 e2 e3 using pieces_dropWhile [of f P b] "1.prems"(2) by simp
    next
      case False
      then have "dropWhile P (r @ c # b) = dropWhile P r @ c # b"
        by (auto simp: dropWhile_append)
      then show ?thesis
        using "1.IH" [OF Cons "1.prems"] by simp
    qed
    show ?thesis
      unfolding left whole using rest by simp
  qed
qed

lemma split_run_clean:
  "w \<in> set (split_run P s) \<Longrightarrow> x \<in> set w \<Longrightarrow> \<not> P x"
proof (induction P s arbitrary: w rule: split_run.induct)
  case (1 P s)
  show ?case
  proof (cases "dropWhile (\<lambda>c. \<not> P c) s")
    case Nil
    then have "\<forall>x\<in>set s. \<not> P x" by simp
    moreover from this have "split_run P s = [s]" by (rule split_run_no_match)
    ultimately show ?thesis using "1.prems" by simp
  next
    case (Cons d r)
    from split_run_match [OF Cons] "1.prems"(1)
    consider "w = takeWhile (\<lambda>c. \<not> P c) s" | "w \<in> set (split_run P (dropWhile P r))"
      by auto
    then show ?thesis
    proof cases
      case 1
      then show ?thesis using "1.prems"(2) by (auto dest: set_takeWhileD)
    next
      case 2
      then show ?thesis using "1.IH" [OF Cons] "1.prems"(2) by blast
    qed
  qed
qed

section \<open>Sentence segmentation\<close>

lemma trim_Nil: "trim [] = []"
  by (simp add: trim_def)

lemma trim_parts:
  "\<exists>l r. s = l @ trim s @ r \<and> (\<forall>c\<in>set l. is_whitespace c) \<and> (\<forall>c\<in>set r. is_whitespace c)"
proof -
  let ?d = "dropWhile is_whitespace s"
  let ?l = "takeWhile is_whitespace s"
  let ?r = "rev (takeWhile is_whitespace (rev ?d))"
  have "trim s @ ?r =
      rev (takeWhile is_whitespace (rev ?d) @ dropWhile is_whitespace (rev ?d))"
    by (simp only: trim_def rev_append)
  also have "\<dots> = ?d"
    by simp
  finally have "s = ?l @ trim s @ ?r"
    by simp
  moreover have "\<forall>c\<in>set ?l. is_whitespace c"
    by (auto dest: set_takeWhileD)
  moreover have "\<forall>c\<in>set ?r. is_whitespace c"
    by (auto dest: set_takeWhileD)
  ultimately show ?thesis by blast
qed

lemma trim_subset: "set (trim s) \<subseteq> set s"
  using trim_parts [of s] by (metis Un_upper1 Un_upper2 set_append subset_trans)

lemma trim_last: "trim s \<noteq> [] \<Longrightarrow> \<not> is_whitespace (last (trim s))"
  unfolding trim_def by (simp add: last_rev hd_dropWhile)

lemma last_dropWhile_keep: "dropWhile P xs \<noteq> [] \<Longrightarrow> last (dropWhile P xs) = last xs"
  by (metis last_appendR takeWhile_dropWhile_id)

lemma trim_hd: "trim s \<noteq> [] \<Longrightarrow> \<not> is_whitespace (hd (trim s))"
proof -
  assume ne: "trim s \<noteq> []"
  let ?d = "dropWhile is_whitespace s"
  from ne have x: "dropWhile is_whitespace (rev ?d) \<noteq> []"
    by (simp add: trim_def)
  have d: "?d \<noteq> []"
  proof
    assume "?d = []"
    with x show False by simp
  qed
  have "hd (trim s) = last (dropWhile is_whitespace (rev ?d))"
    using x by (simp add: trim_def hd_rev)
  also have "\<dots> = last (rev ?d)"
    using x by (rule last_dropWhile_keep)
  also have "\<dots> = hd ?d"
    using d by (simp add: last_rev)
  finally show ?thesis
    using d hd_dropWhile [of is_whitespace s] by simp
qed

lemma trim_blank:
  assumes "\<forall>c\<in>set s. is_whitespace c"
  shows "trim s = []"
proof -
  from assms have blank: "dropWhile is_whitespace s = []" by simp
  show ?thesis unfolding trim_def blank by simp
qed

lemma split_run_subset:
  "w \<in> set (split_run P s) \<Longrightarrow> set w \<subseteq> set s"
proof (induction P s arbitrary: w rule: split_run.induct)
  case (1 P s)
  show ?case
  proof (cases "dropWhile (\<lambda>c. \<not> P c) s")
    case Nil
    then have "\<forall>x\<in>set s. \<not> P x" by simp
    then have "split_run P s = [s]" by (rule split_run_no_match)
    then show ?thesis using "1.prems" by simp
  next
    case (Cons d r)
    have r: "set (dropWhile P r) \<subseteq> set s"
      using set_dropWhileD [of _ P r] set_dropWhileD [of _ "\<lambda>c. \<not> P c" s] Cons by auto
    from split_run_match [OF Cons] "1.prems"
    consider "w = takeWhile (\<lambda>c. \<not> P c) s" | "w \<in> set (split_run P (dropWhile P r))"
      by auto
    then show ?thesis
    proof cases
      case 1
      then show ?thesis by (auto dest: set_takeWhileD)
    next
      case 2
      then show ?thesis using "1.IH" [OF Cons] r by blast
    qed
  qed
qed


lemma splitSentences_append:
  "is_terminator t \<Longrightarrow> splitSentences (a @ t # b) = splitSentences a @ splitSentences b"
  unfolding splitSentences_def by (rule pieces_append) (simp_all add: trim_Nil)

lemma splitSentences_single:
  "\<forall>c\<in>set s. \<not> is_terminator c \<Longrightarrow> splitSentences s = (if trim s = [] then [] else [trim s])"
  by (simp add: splitSentences_def split_run_no_match)

lemma splitSentences_piece:
  assumes "r \<in> set (splitSentences s)"
  shows "r \<noteq> [] \<and> \<not> is_whitespace (hd r) \<and> \<not> is_whitespace (last r) \<and>
         (\<forall>c\<in>set r. \<not> is_terminator c)"
proof -
  from assms obtain w where w: "w \<in> set (split_run is_terminator s)" and r: "r = trim w" and ne: "r \<noteq> []"
    by (auto simp: splitSentences_def)
  have "\<forall>c\<in>set r. \<not> is_terminator c"
    using split_run_clean [OF w] trim_subset [of w] r by blast
  then show ?thesis
    using ne r trim_hd [of w] trim_last [of w] by simp
qed

lemma splitSentences_blank:
  assumes "\<forall>c\<in>set s. is_whitespace c"
  shows "splitSentences s = []"
proof -
  have "trim w = []" if "w \<in> set (split_run is_terminator s)" for w
  proof (rule trim_blank, rule ballI)
    fix c assume "c \<in> set w"
    then show "is_whitespace c" using split_run_subset [OF that] assms by blast
  qed
  then show ?thesis
    by (auto simp: splitSentences_def filter_empty_conv)
qed


lemma splitSentences_example:
  "splitSentences (str ''Hello world. This is great! Really?'') =
     [str ''Hello world'', str ''This is great'', str ''Really'']"
  by (simp add: splitSentences_def str_def split_run.simps is_terminator_def trim_def
        is_whitespace_def)

text \<open>
  Claim C3. \<^verbatim>\<open>splitSentences\<close> cuts its input at every terminator (period, exclamation
  mark, question mark, newline), so that a run of terminators is one boundary and the
  order of the pieces is that of the input; a text without a terminator gives its trimmed
  form, or nothing when that is empty; trimming removes whitespace at both ends and
  nothing else; every sentence returned is non-empty, starts and ends with a character
  that is not whitespace and holds no terminator; an input of whitespace only (the empty
  input among them) gives no sentence; and the example of the specification evaluates as
  stated.
\<close>

theorem splitSentences_contract:
  "(is_terminator t \<longrightarrow> splitSentences (a @ t # b) = splitSentences a @ splitSentences b) \<and>
   ((\<forall>c\<in>set u. \<not> is_terminator c) \<longrightarrow>
      splitSentences u = (if trim u = [] then [] else [trim u])) \<and>
   (\<exists>l r. v = l @ trim v @ r \<and> (\<forall>c\<in>set l. is_whitespace c) \<and> (\<forall>c\<in>set r. is_whitespace c)) \<and>
   (\<forall>p\<in>set (splitSentences x).
      p \<noteq> [] \<and> \<not> is_whitespace (hd p) \<and> \<not> is_whitespace (last p) \<and>
      (\<forall>c\<in>set p. \<not> is_terminator c)) \<and>
   ((\<forall>c\<in>set w. is_whitespace c) \<longrightarrow> splitSentences w = []) \<and>
   splitSentences (str ''Hello world. This is great! Really?'') =
     [str ''Hello world'', str ''This is great'', str ''Really'']"
  using splitSentences_append [of t a b] splitSentences_single [of u] trim_parts [of v]
    splitSentences_piece [of _ x] splitSentences_blank [of w] splitSentences_example
  by blast

theorem splitSentences_contract_witness:
  "is_terminator 0x2E \<and>
   splitSentences (str ''Hi. Yo'') = splitSentences (str ''Hi'') @ splitSentences (str '' Yo'') \<and>
   list_all (\<lambda>c. \<not> is_terminator c) (str '' Yo '') \<and>
   splitSentences (str '' Yo '') = [str ''Yo''] \<and>
   list_all (\<lambda>p. p \<noteq> [] \<and> \<not> is_whitespace (hd p) \<and> \<not> is_whitespace (last p))
     (splitSentences (str ''Hi. Yo'')) \<and>
   splitSentences (str ''Hi. Yo'') = [str ''Hi'', str ''Yo''] \<and>
   list_all is_whitespace [0x20, 0x0A, 0x09] \<and>
   splitSentences [0x20, 0x0A, 0x09] = []"
  using splitSentences_contract [where t = "0x2E" and a = "str ''Hi''" and b = "str '' Yo''"
      and u = "str '' Yo ''" and v = "str '' Yo ''" and x = "str ''Hi. Yo''"
      and w = "[0x20, 0x0A, 0x09]"]
  by (simp add: splitSentences_def str_def split_run.simps is_terminator_def trim_def
        is_whitespace_def)

section \<open>The timeline\<close>

lemma known_style_palettes:
  assumes "sty \<in> VisualStyle"
  shows "\<exists>palettes. map_of STYLE_PALETTES sty = Some palettes \<and> length palettes = 4"
  using assms by (auto simp: VisualStyle_def STYLE_PALETTES_def)

lemma unknown_style_palettes:
  "sty \<notin> VisualStyle \<longleftrightarrow> map_of STYLE_PALETTES sty = None"
  by (simp add: map_of_eq_None_iff VisualStyle_def STYLE_PALETTES_def)

lemma timeline_nth:
  assumes "i < length ss"
  shows "map (\<lambda>(i, s). \<lparr>sentence = s, index = i, palette = Some (ps ! (i mod length ps))\<rparr>)
             (enumerate 0 ss) ! i =
         \<lparr>sentence = ss ! i, index = i, palette = Some (ps ! (i mod length ps))\<rparr>"
  using assms by (simp add: nth_enumerate_eq)

text \<open>
  Claim C4. For each of the six styles of the table, \<^verbatim>\<open>createPaletteTimeline\<close> returns
  a timeline with one slice for each sentence; slice \<open>i\<close> carries sentence \<open>i\<close>, the index
  \<open>i\<close> and entry \<open>i mod k\<close> of the style's list of \<open>k\<close> palettes, which is an entry of
  the list; hence the palette of slice \<open>i\<close> is the palette of slice \<open>i mod k\<close>.
\<close>

theorem createPaletteTimeline_scenes:
  assumes "sty \<in> VisualStyle"
  shows "\<exists>palettes timeline.
           map_of STYLE_PALETTES sty = Some palettes \<and> palettes \<noteq> [] \<and>
           createPaletteTimeline ss sty = Inr timeline \<and>
           length timeline = length ss \<and>
           (\<forall>i<length ss.
              sentence (timeline ! i) = ss ! i \<and> index (timeline ! i) = i \<and>
              i mod length palettes < length palettes \<and>
              palette (timeline ! i) = Some (palettes ! (i mod length palettes)) \<and>
              i mod length palettes < length timeline \<and>
              palette (timeline ! i) = palette (timeline ! (i mod length palettes)))"
proof -
  from known_style_palettes [OF assms] obtain ps
    where p: "map_of STYLE_PALETTES sty = Some ps" and k: "length ps = 4"
    by blast
  define tl where
    "tl = map (\<lambda>(i, s). \<lparr>sentence = s, index = i, palette = Some (ps ! (i mod length ps))\<rparr>)
            (enumerate 0 ss)"
  have t: "createPaletteTimeline ss sty = Inr tl"
    by (simp add: createPaletteTimeline_def p tl_def)
  have n: "length tl = length ss"
    by (simp add: tl_def)
  have nth: "tl ! i = \<lparr>sentence = ss ! i, index = i, palette = Some (ps ! (i mod length ps))\<rparr>"
    if "i < length ss" for i
    unfolding tl_def using that by (rule timeline_nth)
  have nonempty: "ps \<noteq> []"
    using k by auto
  have each: "sentence (tl ! i) = ss ! i \<and> index (tl ! i) = i \<and>
      i mod length ps < length ps \<and>
      palette (tl ! i) = Some (ps ! (i mod length ps)) \<and>
      i mod length ps < length tl \<and>
      palette (tl ! i) = palette (tl ! (i mod length ps))"
    if i: "i < length ss" for i
  proof -
    have a: "i mod length ps < length ps"
      using k by simp
    have b: "i mod length ps < length ss"
      using i by (rule le_less_trans [OF mod_less_eq_dividend])
    have c: "palette (tl ! (i mod length ps)) = Some (ps ! (i mod length ps))"
      by (simp add: nth [OF b])
    show ?thesis
      using a b c n by (simp add: nth [OF i])
  qed
  show ?thesis
    using p nonempty t n each by blast
qed

theorem createPaletteTimeline_scenes_witness:
  "''noir'' \<in> VisualStyle \<and>
   createPaletteTimeline [str ''a'', str ''b'', str ''c'', str ''d'', str ''e''] ''noir'' =
     Inr [\<lparr>sentence = str ''a'', index = 0, palette = Some (''#0b0b0b'', ''#1f1f1f'')\<rparr>,
          \<lparr>sentence = str ''b'', index = 1, palette = Some (''#111111'', ''#2b2b2b'')\<rparr>,
          \<lparr>sentence = str ''c'', index = 2, palette = Some (''#090909'', ''#202020'')\<rparr>,
          \<lparr>sentence = str ''d'', index = 3, palette = Some (''#131313'', ''#292929'')\<rparr>,
          \<lparr>sentence = str ''e'', index = 4, palette = Some (''#0b0b0b'', ''#1f1f1f'')\<rparr>]"
proof -
  let ?ss = "[str ''a'', str ''b'', str ''c'', str ''d'', str ''e'']"
  have known: "''noir'' \<in> VisualStyle"
    by (simp add: VisualStyle_def)
  from createPaletteTimeline_scenes [OF known, of ?ss]
  have built: "\<exists>timeline. createPaletteTimeline ?ss ''noir'' = Inr timeline"
    by blast
  have "createPaletteTimeline ?ss ''noir'' =
     Inr [\<lparr>sentence = str ''a'', index = 0, palette = Some (''#0b0b0b'', ''#1f1f1f'')\<rparr>,
          \<lparr>sentence = str ''b'', index = 1, palette = Some (''#111111'', ''#2b2b2b'')\<rparr>,
          \<lparr>sentence = str ''c'', index = 2, palette = Some (''#090909'', ''#202020'')\<rparr>,
          \<lparr>sentence = str ''d'', index = 3, palette = Some (''#131313'', ''#292929'')\<rparr>,
          \<lparr>sentence = str ''e'', index = 4, palette = Some (''#0b0b0b'', ''#1f1f1f'')\<rparr>]"
    using built by (simp add: createPaletteTimeline_def STYLE_PALETTES_def)
  with known show ?thesis by (rule conjI)
qed

lemma unknown_not_inherited:
  assumes "map_of STYLE_PALETTES sty = None" and "sty \<notin> set Object_prototype"
  shows "createPaletteTimeline ss sty = (if ss = [] then Inr [] else Inl TypeError)"
  using assms by (simp add: createPaletteTimeline_def)

lemma unknown_inherited:
  assumes "map_of STYLE_PALETTES sty = None" and "sty \<in> set Object_prototype"
  shows "createPaletteTimeline ss sty =
           Inr (map (\<lambda>(i, s). \<lparr>sentence = s, index = i, palette = None\<rparr>) (enumerate 0 ss))"
  using assms by (simp add: createPaletteTimeline_def)

text \<open>
  An identifier outside the table is not rejected: with no sentence the function returns
  the empty timeline, and for a name that every object inherits, such as
  \<^verbatim>\<open>toString\<close>, it returns a timeline whose slices have no palette.
\<close>

theorem unknown_style_not_rejected:
  "''retro'' \<notin> VisualStyle \<and> createPaletteTimeline [] ''retro'' = Inr [] \<and>
   ''toString'' \<notin> VisualStyle \<and>
   createPaletteTimeline [str ''Hi''] ''toString'' =
     Inr [\<lparr>sentence = str ''Hi'', index = 0, palette = None\<rparr>]"
  by (simp add: VisualStyle_def createPaletteTimeline_def STYLE_PALETTES_def
        Object_prototype_def)

text \<open>
  Claim C8, as the code has it. \<^verbatim>\<open>createPaletteTimeline\<close> does not validate the
  style. For an identifier outside the six: when it is a name every object inherits, the
  function returns a timeline with one slice for each sentence and no palette in any of
  them, without an error; otherwise it returns the empty timeline when there is no
  sentence, and fails with the \<^verbatim>\<open>TypeError\<close> of the first palette lookup when there
  is one. In no case does a slice carry the palette of another style.
\<close>

theorem createPaletteTimeline_unknown_style:
  assumes "sty \<notin> VisualStyle"
  shows "createPaletteTimeline ss sty =
           (if sty \<in> set Object_prototype
            then Inr (map (\<lambda>(i, s). \<lparr>sentence = s, index = i, palette = None\<rparr>)
                        (enumerate 0 ss))
            else if ss = [] then Inr [] else Inl TypeError) \<and>
         (\<forall>timeline. createPaletteTimeline ss sty = Inr timeline \<longrightarrow>
            length timeline = length ss \<and> (\<forall>x\<in>set timeline. palette x = None))"
proof -
  from assms have none: "map_of STYLE_PALETTES sty = None"
    by (simp add: unknown_style_palettes)
  show ?thesis
  proof (cases "sty \<in> set Object_prototype")
    case True
    from unknown_inherited [OF none True, of ss] True show ?thesis
      by auto
  next
    case False
    from unknown_not_inherited [OF none False, of ss] False show ?thesis
      by auto
  qed
qed

theorem createPaletteTimeline_unknown_style_witness:
  "''retro'' \<notin> VisualStyle \<and> createPaletteTimeline [str ''Hi''] ''retro'' = Inl TypeError \<and>
   ''constructor'' \<notin> VisualStyle \<and>
   createPaletteTimeline [str ''Hi'', str ''Yo''] ''constructor'' =
     Inr [\<lparr>sentence = str ''Hi'', index = 0, palette = None\<rparr>,
          \<lparr>sentence = str ''Yo'', index = 1, palette = None\<rparr>]"
  using createPaletteTimeline_unknown_style [of "''retro''" "[str ''Hi'']"]
    createPaletteTimeline_unknown_style [of "''constructor''" "[str ''Hi'', str ''Yo'']"]
  by (simp add: VisualStyle_def Object_prototype_def)

section \<open>Line wrapping keeps the words\<close>

lemma space_is_whitespace: "is_whitespace 0x20"
  by (simp add: is_whitespace_def)

lemma words_of_Nil: "words_of [] = []"
  by (simp add: words_of_def split_run_no_match)

lemma words_of_append:
  assumes "is_whitespace c"
  shows "words_of (a @ c # b) = words_of a @ words_of b"
  using pieces_append [of is_whitespace c "\<lambda>x. x" a b] assms
  by (simp add: words_of_def)

lemma words_of_word:
  assumes "\<forall>c\<in>set w. \<not> is_whitespace c"
  shows "words_of w = (if w = [] then [] else [w])"
  using assms by (simp add: words_of_def split_run_no_match)

lemma concat_words_clean:
  assumes "\<And>w c. w \<in> set ps \<Longrightarrow> c \<in> set w \<Longrightarrow> \<not> is_whitespace c"
  shows "concat (map words_of ps) = filter (\<lambda>w. w \<noteq> []) ps"
  using assms
proof (induction ps)
  case Nil
  show ?case by simp
next
  case (Cons p ps)
  have "\<forall>c\<in>set p. \<not> is_whitespace c"
    using Cons.prems [of p] by simp
  then have "words_of p = (if p = [] then [] else [p])"
    by (rule words_of_word)
  moreover have "concat (map words_of ps) = filter (\<lambda>w. w \<noteq> []) ps"
  proof (rule Cons.IH)
    fix w c
    assume "w \<in> set ps" and "c \<in> set w"
    then show "\<not> is_whitespace c"
      using Cons.prems [of w c] by simp
  qed
  ultimately show ?case by simp
qed

lemma words_of_pieces:
  "concat (map words_of (split_run is_whitespace text)) = words_of text"
proof -
  have "concat (map words_of (split_run is_whitespace text)) =
      filter (\<lambda>w. w \<noteq> []) (split_run is_whitespace text)"
    by (rule concat_words_clean) (rule split_run_clean)
  then show ?thesis
    by (simp only: words_of_def [of "text"])
qed

lemma words_of_join_space:
  "words_of (join_space ls) = concat (map words_of ls)"
  by (induction ls rule: join_space.induct)
     (simp_all add: words_of_Nil words_of_append space_is_whitespace)

lemma wrap_step_cases:
  "wrap_step m W (ls, l) word =
     (if l = [] then (ls, word)
      else if W < m (l @ 0x20 # word) then (ls @ [l], word)
      else (ls, l @ 0x20 # word))"
  by (simp add: wrap_step_def)

lemma wrap_step_words:
  assumes "wrap_step m W (ls, l) word = (ls', l')"
  shows "concat (map words_of ls') @ words_of l' =
         concat (map words_of ls) @ words_of l @ words_of word"
proof (cases "l = []")
  case True
  with assms have "ls' = ls" and "l' = word"
    by (simp_all add: wrap_step_cases)
  with True show ?thesis
    by (simp add: words_of_Nil)
next
  case False
  show ?thesis
  proof (cases "W < m (l @ 0x20 # word)")
    case True
    with assms False have "ls' = ls @ [l]" and "l' = word"
      by (simp_all add: wrap_step_cases)
    then show ?thesis
      by simp
  next
    case fits: False
    with assms False have "ls' = ls" and "l' = l @ 0x20 # word"
      by (simp_all add: wrap_step_cases)
    then show ?thesis
      using words_of_append [OF space_is_whitespace, of l word] by simp
  qed
qed

lemma wrap_step_lines:
  assumes "wrap_step m W (ls, l) word = (ls', l')"
  shows "ls' = ls \<or> ls' = ls @ [l] \<and> l \<noteq> []"
  using assms by (cases "l = []"; cases "W < m (l @ 0x20 # word)")
    (simp_all add: wrap_step_cases)

lemma wrap_fold_words:
  assumes "foldl (wrap_step m W) (ls, l) ws = (ls', l')"
  shows "concat (map words_of ls') @ words_of l' =
         concat (map words_of ls) @ words_of l @ concat (map words_of ws)"
  using assms
proof (induction ws arbitrary: ls l)
  case Nil
  then show ?case by simp
next
  case (Cons word ws)
  obtain ls1 l1 where step: "wrap_step m W (ls, l) word = (ls1, l1)"
    by (cases "wrap_step m W (ls, l) word")
  with Cons.prems have "foldl (wrap_step m W) (ls1, l1) ws = (ls', l')"
    by simp
  from Cons.IH [OF this]
  have "concat (map words_of ls') @ words_of l' =
      (concat (map words_of ls1) @ words_of l1) @ concat (map words_of ws)"
    by simp
  also have "\<dots> =
      (concat (map words_of ls) @ words_of l @ words_of word) @ concat (map words_of ws)"
    by (simp only: wrap_step_words [OF step])
  finally show ?case
    by simp
qed

lemma wrapLines_words:
  "words_of (join_space (wrapLines m text W)) = words_of text"
proof -
  obtain ls l where f:
    "foldl (wrap_step m W) ([], []) (split_run is_whitespace text) = (ls, l)"
    by (cases "foldl (wrap_step m W) ([], []) (split_run is_whitespace text)")
  from wrap_fold_words [OF f]
  have "concat (map words_of ls) @ words_of l = words_of text"
    by (simp add: words_of_Nil words_of_pieces)
  then show ?thesis
    by (auto simp: wrapLines_def f words_of_join_space words_of_Nil)
qed

lemma wrap_step_nonempty:
  assumes "wrap_step m W (ls, l) word = (ls', l')" and "\<forall>x\<in>set ls. x \<noteq> []"
  shows "\<forall>x\<in>set ls'. x \<noteq> []"
  using wrap_step_lines [OF assms(1)] assms(2) by auto

lemma wrap_fold_nonempty:
  assumes "foldl (wrap_step m W) (ls, l) ws = (ls', l')" and "\<forall>x\<in>set ls. x \<noteq> []"
  shows "\<forall>x\<in>set ls'. x \<noteq> []"
  using assms
proof (induction ws arbitrary: ls l)
  case Nil
  then show ?case by simp
next
  case (Cons word ws)
  obtain ls1 l1 where step: "wrap_step m W (ls, l) word = (ls1, l1)"
    by (cases "wrap_step m W (ls, l) word")
  with Cons.prems have "foldl (wrap_step m W) (ls1, l1) ws = (ls', l')"
    by simp
  from Cons.IH [OF this wrap_step_nonempty [OF step Cons.prems(2)]] show ?case .
qed

lemma wrapLines_nonempty:
  "x \<in> set (wrapLines m text W) \<Longrightarrow> x \<noteq> []"
proof -
  assume x: "x \<in> set (wrapLines m text W)"
  obtain ls l where f:
    "foldl (wrap_step m W) ([], []) (split_run is_whitespace text) = (ls, l)"
    by (cases "foldl (wrap_step m W) ([], []) (split_run is_whitespace text)")
  from wrap_fold_nonempty [OF f] have "\<forall>x\<in>set ls. x \<noteq> []"
    by simp
  with x show ?thesis
    by (auto simp: wrapLines_def f split: if_splits)
qed

lemma wrap_fold_grows:
  assumes "foldl (wrap_step m W) (ls, l) ws = (ls', l')"
  shows "set ls \<subseteq> set ls'"
  using assms
proof (induction ws arbitrary: ls l)
  case Nil
  then show ?case by simp
next
  case (Cons word ws)
  obtain ls1 l1 where step: "wrap_step m W (ls, l) word = (ls1, l1)"
    by (cases "wrap_step m W (ls, l) word")
  with Cons.prems have "foldl (wrap_step m W) (ls1, l1) ws = (ls', l')"
    by simp
  from Cons.IH [OF this] have "set ls1 \<subseteq> set ls'" .
  moreover from wrap_step_lines [OF step] have "set ls \<subseteq> set ls1"
    by auto
  ultimately show ?case by blast
qed

lemma wide_line_kept:
  assumes f: "foldl (wrap_step m W) (ls, l) ws = (ls', l')"
    and wide: "W < m l" and ne: "l \<noteq> []"
    and pre: "\<And>a b. m a \<le> m (a @ b)"
  shows "l \<in> set ls' \<or> l' = l"
proof (cases ws)
  case Nil
  with f show ?thesis by simp
next
  case (Cons word ws')
  have "W < m (l @ 0x20 # word)"
    using wide pre [of l "0x20 # word"] by simp
  then have step: "wrap_step m W (ls, l) word = (ls @ [l], word)"
    using ne by (simp add: wrap_step_cases)
  with f Cons have "foldl (wrap_step m W) (ls @ [l], word) ws' = (ls', l')"
    by simp
  from wrap_fold_grows [OF this] show ?thesis by simp
qed

lemma wide_word_line:
  assumes f: "foldl (wrap_step m W) (ls, l) (xs @ w # ys) = (ls', l')"
    and wide: "W < m w" and ne: "w \<noteq> []"
    and pre: "\<And>a b. m a \<le> m (a @ b)" and suf: "\<And>a b. m b \<le> m (a @ b)"
  shows "w \<in> set ls' \<or> l' = w"
proof -
  obtain ls1 l1 where a: "foldl (wrap_step m W) (ls, l) xs = (ls1, l1)"
    by (cases "foldl (wrap_step m W) (ls, l) xs")
  have "\<exists>ls2. wrap_step m W (ls1, l1) w = (ls2, w)"
  proof (cases "l1 = []")
    case True
    then show ?thesis by (simp add: wrap_step_cases)
  next
    case False
    have "W < m (l1 @ 0x20 # w)"
      using wide suf [of w "l1 @ [0x20]"] by simp
    with False show ?thesis by (simp add: wrap_step_cases)
  qed
  then obtain ls2 where b: "wrap_step m W (ls1, l1) w = (ls2, w)" ..
  from f a b have "foldl (wrap_step m W) (ls2, w) ys = (ls', l')"
    by simp
  from wide_line_kept [OF this wide ne pre] show ?thesis .
qed

lemma wrapLines_wide_word:
  assumes pre: "\<And>a b. m a \<le> m (a @ b)" and suf: "\<And>a b. m b \<le> m (a @ b)"
    and w: "w \<in> set (words_of text)" and wide: "W < m w"
  shows "w \<in> set (wrapLines m text W)"
proof -
  from w have ne: "w \<noteq> []" and "w \<in> set (split_run is_whitespace text)"
    by (simp_all add: words_of_def)
  then obtain xs ys where s: "split_run is_whitespace text = xs @ w # ys"
    by (auto dest: split_list)
  obtain ls l where f:
    "foldl (wrap_step m W) ([], []) (split_run is_whitespace text) = (ls, l)"
    by (cases "foldl (wrap_step m W) ([], []) (split_run is_whitespace text)")
  then have "foldl (wrap_step m W) ([], []) (xs @ w # ys) = (ls, l)"
    by (simp only: s)
  from wide_word_line [OF this wide ne pre suf] have "w \<in> set ls \<or> l = w" .
  then show ?thesis
    using ne by (auto simp: wrapLines_def f)
qed


lemma join_space_append:
  "join_space (xs @ ys) =
     (if xs = [] then join_space ys
      else if ys = [] then join_space xs
      else join_space xs @ 0x20 # join_space ys)"
proof (induction xs rule: join_space.induct)
  case 1
  show ?case by simp
next
  case (2 x)
  show ?case by (cases ys) simp_all
next
  case (3 x y zs)
  then show ?case by simp
qed

lemma split_run_head_nonempty:
  assumes "s \<noteq> []" and "\<not> P (hd s)"
  shows "hd (split_run P s) \<noteq> []"
proof -
  have tw: "takeWhile (\<lambda>c. \<not> P c) s \<noteq> []"
    using assms by (cases s) simp_all
  show ?thesis
  proof (cases "dropWhile (\<lambda>c. \<not> P c) s")
    case Nil
    then have "\<forall>x\<in>set s. \<not> P x" by simp
    then have "split_run P s = [s]" by (rule split_run_no_match)
    with assms(1) show ?thesis by simp
  next
    case (Cons c r)
    from split_run_match [OF this] tw show ?thesis by simp
  qed
qed

lemma split_run_later_nonempty:
  assumes "s \<noteq> [] \<longrightarrow> \<not> P (last s)"
  shows "\<forall>x\<in>set (tl (split_run P s)). x \<noteq> []"
  using assms
proof (induction P s rule: split_run.induct)
  case (1 P s)
  show ?case
  proof (cases "dropWhile (\<lambda>c. \<not> P c) s")
    case Nil
    then have "\<forall>x\<in>set s. \<not> P x" by simp
    then have "split_run P s = [s]" by (rule split_run_no_match)
    then show ?thesis by simp
  next
    case (Cons c r)
    let ?r = "dropWhile P r"
    have s: "s = takeWhile (\<lambda>c. \<not> P c) s @ c # r"
      using Cons by (metis takeWhile_dropWhile_id)
    have c: "P c"
      using Cons hd_dropWhile [of "\<lambda>c. \<not> P c" s] by simp
    have ne: "?r \<noteq> []"
    proof
      assume "?r = []"
      then have all: "\<forall>x\<in>set r. P x" by simp
      have "P (last (c # r))"
        using all c by (cases r) auto
      moreover have "last s = last (c # r)"
        by (subst s) simp
      moreover have "s \<noteq> []"
        using Cons by auto
      ultimately show False
        using "1.prems" by simp
    qed
    have "last s = last (c # r)"
      by (subst s) simp
    also have "\<dots> = last r"
      using ne by auto
    also have "\<dots> = last ?r"
      using ne by (simp add: last_dropWhile_keep)
    finally have "\<not> P (last ?r)"
      using "1.prems" Cons by auto
    then have later: "\<forall>x\<in>set (tl (split_run P ?r)). x \<noteq> []"
      using "1.IH" [OF Cons] by simp
    have "\<not> P (hd ?r)"
      using ne hd_dropWhile [of P r] by simp
    with ne have first: "hd (split_run P ?r) \<noteq> []"
      by (rule split_run_head_nonempty)
    have "split_run P ?r \<noteq> []"
      by (subst split_run.simps) (simp split: list.split)
    then have "set (split_run P ?r) = insert (hd (split_run P ?r)) (set (tl (split_run P ?r)))"
      by (cases "split_run P ?r") simp_all
    with first later have "\<forall>x\<in>set (split_run P ?r). x \<noteq> []"
      by simp
    then show ?thesis
      unfolding split_run_match [OF Cons] by simp
  qed
qed


lemma wrap_step_join:
  assumes "w \<noteq> []" and "l = [] \<longrightarrow> ls = []"
    and "wrap_step m W (ls, l) w = (ls', l')"
  shows "l' \<noteq> [] \<and>
         join_space (ls' @ [l']) = join_space ((ls @ (if l = [] then [] else [l])) @ [w])"
proof (cases "l = []")
  case True
  with assms have "ls' = []" and "l' = w" and "ls = []"
    by (simp_all add: wrap_step_cases)
  with True assms(1) show ?thesis
    by simp
next
  case False
  show ?thesis
  proof (cases "W < m (l @ 0x20 # w)")
    case True
    with assms False have "ls' = ls @ [l]" and "l' = w"
      by (simp_all add: wrap_step_cases)
    with False assms(1) show ?thesis
      by simp
  next
    case fits: False
    with assms False have "ls' = ls" and "l' = l @ 0x20 # w"
      by (simp_all add: wrap_step_cases)
    with False show ?thesis
      by (simp add: join_space_append)
  qed
qed

lemma wrap_fold_join:
  assumes "\<forall>w\<in>set ws. w \<noteq> []" and "l = [] \<longrightarrow> ls = []"
    and "foldl (wrap_step m W) (ls, l) ws = (ls', l')"
  shows "join_space (ls' @ (if l' = [] then [] else [l'])) =
         join_space ((ls @ (if l = [] then [] else [l])) @ ws)"
  using assms
proof (induction ws arbitrary: ls l)
  case Nil
  then show ?case by simp
next
  case (Cons w ws)
  obtain ls1 l1 where step: "wrap_step m W (ls, l) w = (ls1, l1)"
    by (cases "wrap_step m W (ls, l) w")
  from Cons.prems(1) have w: "w \<noteq> []" and rest: "\<forall>w\<in>set ws. w \<noteq> []"
    by simp_all
  from wrap_step_join [OF w Cons.prems(2) step]
  have l1: "l1 \<noteq> []"
    and j: "join_space (ls1 @ [l1]) = join_space ((ls @ (if l = [] then [] else [l])) @ [w])"
    by simp_all
  from Cons.prems(3) step have "foldl (wrap_step m W) (ls1, l1) ws = (ls', l')"
    by simp
  from Cons.IH [OF rest _ this] l1
  have "join_space (ls' @ (if l' = [] then [] else [l'])) = join_space ((ls1 @ [l1]) @ ws)"
    by simp
  also have "\<dots> = join_space (((ls @ (if l = [] then [] else [l])) @ [w]) @ ws)"
    unfolding join_space_append [of "ls1 @ [l1]" ws]
      join_space_append [of "(ls @ (if l = [] then [] else [l])) @ [w]" ws] j
    by simp
  finally show ?case
    by simp
qed

lemma wrapLines_join:
  assumes "input \<noteq> [] \<longrightarrow> \<not> is_whitespace (last input)"
  shows "join_space (wrapLines m input W) = join_space (words_of input)"
proof -
  have "split_run is_whitespace input \<noteq> []"
    by (subst split_run.simps) (simp split: list.split)
  then obtain p ps where pieces: "split_run is_whitespace input = p # ps"
    by (cases "split_run is_whitespace input") simp_all
  from split_run_later_nonempty [of input is_whitespace] assms
  have later: "\<forall>w\<in>set ps. w \<noteq> []"
    by (simp add: pieces)
  obtain ls l where f: "foldl (wrap_step m W) ([], p) ps = (ls, l)"
    by (cases "foldl (wrap_step m W) ([], p) ps")
  have whole: "foldl (wrap_step m W) ([], []) (split_run is_whitespace input) = (ls, l)"
    by (simp add: pieces wrap_step_cases f)
  from wrap_fold_join [OF later _ f]
  have "join_space (ls @ (if l = [] then [] else [l])) =
      join_space ((if p = [] then [] else [p]) @ ps)"
    by simp
  moreover have "words_of input = (if p = [] then [] else [p]) @ ps"
    using later by (simp add: words_of_def pieces filter_id_conv)
  moreover have "wrapLines m input W = ls @ (if l = [] then [] else [l])"
    by (simp add: wrapLines_def whole)
  ultimately show ?thesis
    by simp
qed

lemma wrapLines_trailing_space:
  "wrapLines (\<lambda>s. real (length s)) (str ''ab c '') 3 = [str ''ab'', str ''c '']"
  by (simp add: wrapLines_def wrap_step_def split_run.simps is_whitespace_def str_def)

text \<open>
  Claim C10. Whatever the text, the widths and the maximum width: the words of the lines
  of \<^verbatim>\<open>wrapLines\<close>, joined by single spaces, are the whitespace-separated words of the
  text, in their order; no line is empty; when the text does not end with whitespace, the
  lines joined by single spaces are, character by character, the words joined by single
  spaces (after a text that ends with whitespace the last line can end with one space,
  as in \<open>wrapLines_trailing_space\<close>); and when a string is never narrower than its
  beginning or its end, a word wider than the maximum width is a line of its own.
\<close>

theorem wrapLines_keeps_words:
  "words_of (join_space (wrapLines measureText input maxWidth)) = words_of input \<and>
   (\<forall>line\<in>set (wrapLines measureText input maxWidth). line \<noteq> []) \<and>
   ((input \<noteq> [] \<longrightarrow> \<not> is_whitespace (last input)) \<longrightarrow>
      join_space (wrapLines measureText input maxWidth) = join_space (words_of input)) \<and>
   ((\<forall>a b. measureText a \<le> measureText (a @ b) \<and> measureText b \<le> measureText (a @ b)) \<and>
    w \<in> set (words_of input) \<and> maxWidth < measureText w \<longrightarrow>
      w \<in> set (wrapLines measureText input maxWidth))"
proof (intro conjI ballI impI)
  show "words_of (join_space (wrapLines measureText input maxWidth)) = words_of input"
    by (rule wrapLines_words)
next
  fix line
  assume "line \<in> set (wrapLines measureText input maxWidth)"
  then show "line \<noteq> []"
    by (rule wrapLines_nonempty)
next
  assume "input \<noteq> [] \<longrightarrow> \<not> is_whitespace (last input)"
  then show "join_space (wrapLines measureText input maxWidth) = join_space (words_of input)"
    by (rule wrapLines_join)
next
  assume h: "(\<forall>a b. measureText a \<le> measureText (a @ b) \<and> measureText b \<le> measureText (a @ b)) \<and>
    w \<in> set (words_of input) \<and> maxWidth < measureText w"
  show "w \<in> set (wrapLines measureText input maxWidth)"
    by (rule wrapLines_wide_word) (use h in simp_all)
qed

theorem wrapLines_keeps_words_witness:
  "wrapLines (\<lambda>s. real (length s)) (str ''ab abcdef  c d'') 4 =
     [str ''ab'', str ''abcdef'', str ''c d''] \<and>
   words_of (str ''ab abcdef  c d'') = [str ''ab'', str ''abcdef'', str ''c'', str ''d''] \<and>
   \<not> is_whitespace (last (str ''ab abcdef  c d'')) \<and>
   4 < real (length (str ''abcdef'')) \<and>
   str ''abcdef'' \<in> set (wrapLines (\<lambda>s. real (length s)) (str ''ab abcdef  c d'') 4) \<and>
   join_space (wrapLines (\<lambda>s. real (length s)) (str ''ab abcdef  c d'') 4) =
     str ''ab abcdef c d''"
  using wrapLines_keeps_words [where measureText = "\<lambda>s. real (length s)"
      and input = "str ''ab abcdef  c d''" and maxWidth = 4 and w = "str ''abcdef''"]
  by (simp add: wrapLines_def wrap_step_def split_run.simps is_whitespace_def str_def
        words_of_def)

section \<open>Opacities of a frame\<close>

lemma line_alpha_eq:
  "line_alpha p j n = max 0.15 (1 - \<bar>p - real j / max 1 (real n - 1)\<bar> * 2.4)"
  by (simp add: line_alpha_def Let_def max_def)

lemma line_alpha_bounds: "0.15 \<le> line_alpha p j n \<and> line_alpha p j n \<le> 1"
proof -
  have "0 \<le> \<bar>p - real j / max 1 (real n - 1)\<bar> * 2.4"
    by simp
  then show ?thesis
    unfolding line_alpha_eq by (simp add: max_def)
qed

lemma title_alpha_bounds: "0.2 \<le> title_alpha p \<and> title_alpha p \<le> 1"
  by (simp add: title_alpha_def titleOpacity_def)

text \<open>
  Claim C6. For a progress between 0 and 1 and line \<open>j\<close> of \<open>n\<close> lines, the opacity of
  the caption line is \<open>max(0.15, 1 - |p - j / max(1, n - 1)| * 2.4)\<close> and lies between 0.15
  and 1; the opacity of the title is \<open>max(0.2, sin(pi * min(p, 1 - p)))\<close> and lies between
  0.2 and 1.
\<close>

theorem caption_and_title_alpha:
  assumes "0 \<le> p" and "p \<le> 1" and "1 \<le> n" and "j < n"
  shows "line_alpha p j n = max 0.15 (1 - \<bar>p - real j / max 1 (real n - 1)\<bar> * 2.4) \<and>
         0.15 \<le> line_alpha p j n \<and> line_alpha p j n \<le> 1.0 \<and>
         title_alpha p = max 0.2 (sin (pi * min p (1 - p))) \<and>
         0.2 \<le> title_alpha p \<and> title_alpha p \<le> 1.0"
  using line_alpha_eq [of p j n] line_alpha_bounds [of p j n] title_alpha_bounds [of p]
  by (simp add: title_alpha_def titleOpacity_def)

theorem caption_and_title_alpha_witness:
  "(0::real) \<le> 1 / 2 \<and> (1::real) / 2 \<le> 1 \<and> (1::nat) \<le> 3 \<and> (1::nat) < 3 \<and>
   line_alpha (1 / 2) 1 3 = 1 \<and> title_alpha (1 / 2) = 1 \<and>
   0.15 \<le> line_alpha (1 / 2) 1 3 \<and> 0.2 \<le> title_alpha (1 / 2)"
  using caption_and_title_alpha [of "1 / 2" 3 1]
  by (simp add: line_alpha_def title_alpha_def titleOpacity_def)

lemma sin_four_thirds: "sin (4 * pi / 3) = - (sqrt 3 / 2)"
proof -
  have "sin (4 * pi / 3) = sin (pi / 3 + pi)"
    by (simp add: field_simps)
  also have "\<dots> = - sin (pi / 3)"
    by (rule sin_periodic_pi)
  finally show ?thesis
    by (simp add: sin_60)
qed

lemma satellite_alpha_negative: "satellite_alpha 0 4 < 0"
proof -
  have "(3 / 2)\<^sup>2 < (3::real)"
    by (simp add: power2_eq_square)
  then have "3 / 2 < sqrt 3"
    by (rule real_less_rsqrt)
  moreover have "satellite_alpha 0 4 = 0.3 + 0.4 * sin (4 * pi / 3)"
    by (simp add: satellite_alpha_def satellite_angle_def oscillation_def satelliteCount_def)
  ultimately show ?thesis
    by (simp add: sin_four_thirds)
qed

lemma satellite_alpha_bounds:
  "- 0.1 \<le> satellite_alpha p i \<and> satellite_alpha p i \<le> 0.7"
proof -
  let ?x = "satellite_angle p i + oscillation p"
  have lo: "- 1 \<le> sin ?x"
    by (rule sin_ge_minus_one)
  have hi: "sin ?x \<le> 1"
    by (rule sin_le_one)
  show ?thesis
    unfolding satellite_alpha_def using lo hi by linarith
qed


lemma opacities_set:
  "opacities (set_globalAlpha v c) = opacities c @ [GlobalAlpha v]"
  "opacities (set_fillStyle v c) = opacities c @ [FillAlpha v]"
  "opacities (set_strokeStyle v c) = opacities c @ [StrokeAlpha v]"
  by (simp_all add: set_globalAlpha_def set_fillStyle_def set_strokeStyle_def)

lemma lines_alpha_fold:
  "opacities (foldl (\<lambda>c j. set_globalAlpha (f j) c) c0 js) =
     opacities c0 @ map (\<lambda>j. GlobalAlpha (f j)) js"
  by (induction js arbitrary: c0) (simp_all add: opacities_set)

lemma satellites_alpha_fold:
  "opacities (foldl (\<lambda>c i. set_fillStyle (f i) c) c0 js) =
     opacities c0 @ map (\<lambda>i. FillAlpha (f i)) js"
  by (induction js arbitrary: c0) (simp_all add: opacities_set)

lemma draw_frame_opacities:
  "opacities (draw_frame m slice p ctx) =
     opacities ctx @
     [FillAlpha 1, FillAlpha 0.08, GlobalAlpha (title_alpha p), FillAlpha 0.8,
      GlobalAlpha 1, FillAlpha 0.04, FillAlpha 0.9] @
     map (\<lambda>j. GlobalAlpha
            (line_alpha p j (length (wrapLines m (sentence slice) (width ctx * 0.7)))))
       [0..<length (wrapLines m (sentence slice) (width ctx * 0.7))] @
     [GlobalAlpha 0.4, StrokeAlpha 0.35, GlobalAlpha 0.9] @
     map (\<lambda>i. FillAlpha (satellite_alpha p i)) [0..<satelliteCount] @
     [GlobalAlpha 1]"
  by (simp add: draw_frame_def Let_def lines_alpha_fold satellites_alpha_fold
        drawGradientBackground_def opacities_set)

lemma draw_frame_globalAlpha: "globalAlpha (draw_frame m slice p ctx) = 1"
  by (simp add: draw_frame_def Let_def set_globalAlpha_def)


text \<open>
  Claim C1. Every opacity a frame hands to the drawing surface is to lie between 0 and 1,
  the opacity of each satellite among them. At progress 0, which is the first frame of
  every slice, the alpha channel written into the fill colour of satellite 4 is
  \<open>0.3 + 0.4 * sin(4 * pi / 3)\<close>, that is \<open>0.3 - 0.4 * sqrt 3 / 2\<close>, which is negative;
  nothing clamps it, and it is among the opacities of the frame.
\<close>

theorem satellite_alpha_not_clamped:
  "satellite_alpha 0 4 < 0 \<and>
   FillAlpha (satellite_alpha 0 4) \<in> set (opacities (draw_frame (\<lambda>s. real (length s))
     \<lparr>sentence = str ''Hi'', index = 0, palette = Some (''#1b0033'', ''#5c00b3'')\<rparr> 0 page_canvas)) \<and>
   \<not> list_all in_unit (opacities (draw_frame (\<lambda>s. real (length s))
     \<lparr>sentence = str ''Hi'', index = 0, palette = Some (''#1b0033'', ''#5c00b3'')\<rparr> 0 page_canvas))"
proof -
  let ?frame = "draw_frame (\<lambda>s. real (length s))
     \<lparr>sentence = str ''Hi'', index = 0, palette = Some (''#1b0033'', ''#5c00b3'')\<rparr> 0 page_canvas"
  have "(4::nat) \<in> set [0..<satelliteCount]"
    by (simp add: satelliteCount_def)
  then have "FillAlpha (satellite_alpha 0 4) \<in>
      set (map (\<lambda>i. FillAlpha (satellite_alpha 0 i)) [0..<satelliteCount])"
    unfolding set_map by (rule imageI)
  then have handed: "FillAlpha (satellite_alpha 0 4) \<in> set (opacities ?frame)"
    unfolding draw_frame_opacities by simp
  have "\<not> in_unit (FillAlpha (satellite_alpha 0 4))"
    using satellite_alpha_negative by simp
  with handed have "\<not> list_all in_unit (opacities ?frame)"
    unfolding list_all_iff by blast
  with handed satellite_alpha_negative show ?thesis
    by blast
qed

text \<open>
  What does hold of every frame: each value assigned to \<^verbatim>\<open>globalAlpha\<close> lies between
  0 and 1, and so does the alpha channel of the stroke colour; the last assignment of the
  frame sets \<^verbatim>\<open>globalAlpha\<close> to 1; and the alpha channel written for satellite \<open>i\<close>,
  \<open>0.3 + 0.4 * sin(angle + osc)\<close>, lies between -0.1 and 0.7.
\<close>

lemma draw_frame_opacity:
  assumes "0 \<le> p" and "p \<le> 1"
  shows "(\<exists>os. opacities (draw_frame m slice p ctx) = opacities ctx @ os \<and>
            (\<forall>v. GlobalAlpha v \<in> set os \<longrightarrow> 0 \<le> v \<and> v \<le> 1) \<and>
            (\<forall>v. StrokeAlpha v \<in> set os \<longrightarrow> 0 \<le> v \<and> v \<le> 1) \<and>
            (\<forall>v. FillAlpha v \<in> set os \<longrightarrow> - 0.1 \<le> v \<and> v \<le> 1) \<and>
            (\<forall>i<satelliteCount. FillAlpha (satellite_alpha p i) \<in> set os)) \<and>
         globalAlpha (draw_frame m slice p ctx) = 1 \<and>
         (\<forall>i<satelliteCount.
            satellite_alpha p i =
              0.3 + 0.4 * sin (p * pi * 2 + (real i / 6) * pi * 2 + sin (p * pi * 2)) \<and>
            - 0.1 \<le> satellite_alpha p i \<and> satellite_alpha p i \<le> 0.7)"
proof -
  let ?n = "length (wrapLines m (sentence slice) (width ctx * 0.7))"
  let ?os = "[FillAlpha 1, FillAlpha 0.08, GlobalAlpha (title_alpha p), FillAlpha 0.8,
      GlobalAlpha 1, FillAlpha 0.04, FillAlpha 0.9] @
     map (\<lambda>j. GlobalAlpha (line_alpha p j ?n)) [0..<?n] @
     [GlobalAlpha 0.4, StrokeAlpha 0.35, GlobalAlpha 0.9] @
     map (\<lambda>i. FillAlpha (satellite_alpha p i)) [0..<satelliteCount] @
     [GlobalAlpha 1]"
  have eq: "opacities (draw_frame m slice p ctx) = opacities ctx @ ?os"
    by (simp add: draw_frame_opacities)
  have g: "0 \<le> v \<and> v \<le> 1" if "GlobalAlpha v \<in> set ?os" for v
  proof -
    from that consider "v = title_alpha p" | "v = 1" | "v = 0.4" | "v = 0.9"
      | j where "v = line_alpha p j ?n"
      by auto
    then show ?thesis
    proof cases
      case 1
      then show ?thesis using title_alpha_bounds [of p] by simp
    next
      case (5 j)
      then show ?thesis using line_alpha_bounds [of p j ?n] by simp
    qed simp_all
  qed
  have s: "0 \<le> v \<and> v \<le> 1" if "StrokeAlpha v \<in> set ?os" for v
    using that by auto
  have f: "- 0.1 \<le> v \<and> v \<le> 1" if "FillAlpha v \<in> set ?os" for v
  proof -
    from that consider "v = 1" | "v = 0.08" | "v = 0.8" | "v = 0.04" | "v = 0.9"
      | i where "v = satellite_alpha p i"
      by auto
    then show ?thesis
    proof cases
      case (6 i)
      then show ?thesis using satellite_alpha_bounds [of p i] by simp
    qed simp_all
  qed
  have sat: "FillAlpha (satellite_alpha p i) \<in> set ?os" if "i < satelliteCount" for i
    using that by simp
  have formula: "satellite_alpha p i =
      0.3 + 0.4 * sin (p * pi * 2 + (real i / 6) * pi * 2 + sin (p * pi * 2))" for i
    by (simp add: satellite_alpha_def satellite_angle_def oscillation_def satelliteCount_def)
  have "\<exists>os. opacities (draw_frame m slice p ctx) = opacities ctx @ os \<and>
            (\<forall>v. GlobalAlpha v \<in> set os \<longrightarrow> 0 \<le> v \<and> v \<le> 1) \<and>
            (\<forall>v. StrokeAlpha v \<in> set os \<longrightarrow> 0 \<le> v \<and> v \<le> 1) \<and>
            (\<forall>v. FillAlpha v \<in> set os \<longrightarrow> - 0.1 \<le> v \<and> v \<le> 1) \<and>
            (\<forall>i<satelliteCount. FillAlpha (satellite_alpha p i) \<in> set os)"
    using eq g s f sat by (intro exI [of _ ?os]) blast
  then show ?thesis
    using draw_frame_globalAlpha [of m slice p ctx] formula satellite_alpha_bounds [of p]
    by blast
qed

section \<open>Frames and progress of a run\<close>

lemma render_loop_stops:
  assumes "\<not> real c < tf"
  shows "render_loop fl m tline sf tf c ctx rep = (None, ctx, rep)"
  using assms by (subst render_loop.simps) simp

lemma render_loop_step:
  assumes "real c < tf" and "0 \<le> \<lfloor>fl (real c / sf)\<rfloor>"
    and "nat \<lfloor>fl (real c / sf)\<rfloor> < length tline"
    and "palette (tline ! nat \<lfloor>fl (real c / sf)\<rfloor>) = Some colors"
  shows "render_loop fl m tline sf tf c ctx rep =
         render_loop fl m tline sf tf (c + 1)
           (draw_frame m (tline ! nat \<lfloor>fl (real c / sf)\<rfloor>) (fl (js_rem (real c) sf / sf)) ctx)
           (rep @ [fl (real (c + 1) / tf)])"
  using assms by (subst render_loop.simps) (simp add: Let_def)

lemma render_loop_throws:
  assumes "real c < tf"
    and "\<not> (0 \<le> \<lfloor>fl (real c / sf)\<rfloor> \<and> nat \<lfloor>fl (real c / sf)\<rfloor> < length tline) \<or>
         palette (tline ! nat \<lfloor>fl (real c / sf)\<rfloor>) = None"
  shows "render_loop fl m tline sf tf c ctx rep = (Some TypeError, ctx, rep)"
  using assms by (subst render_loop.simps) (auto simp: Let_def)

lemma render_loop_emitted:
  "\<exists>j. snd (snd (render_loop fl m tline sf tf c ctx rep)) =
         rep @ map (\<lambda>k. fl (real (k + 1) / tf)) [c..<j]"
proof (induction "nat \<lceil>tf\<rceil> - c" arbitrary: c ctx rep)
  case 0
  then have "\<not> real c < tf"
    by (simp add: zless_nat_eq_int_zless less_ceiling_iff [symmetric] not_less)
  then have "snd (snd (render_loop fl m tline sf tf c ctx rep)) =
      rep @ map (\<lambda>k. fl (real (k + 1) / tf)) [c..<c]"
    by (simp add: render_loop_stops)
  then show ?case ..
next
  case (Suc d)
  then have lt: "c < nat \<lceil>tf\<rceil>"
    by simp
  then have run: "real c < tf"
    by (simp add: zless_nat_eq_int_zless less_ceiling_iff)
  have d: "d = nat \<lceil>tf\<rceil> - (c + 1)"
    using Suc.hyps(2) by simp
  show ?case
  proof (cases "0 \<le> \<lfloor>fl (real c / sf)\<rfloor> \<and> nat \<lfloor>fl (real c / sf)\<rfloor> < length tline \<and>
      palette (tline ! nat \<lfloor>fl (real c / sf)\<rfloor>) \<noteq> None")
    case True
    then obtain colors where p: "palette (tline ! nat \<lfloor>fl (real c / sf)\<rfloor>) = Some colors"
      by auto
    let ?ctx = "draw_frame m (tline ! nat \<lfloor>fl (real c / sf)\<rfloor>) (fl (js_rem (real c) sf / sf)) ctx"
    from Suc.hyps(1) [OF d, of ?ctx "rep @ [fl (real (c + 1) / tf)]"]
    obtain j where j: "snd (snd (render_loop fl m tline sf tf (c + 1) ?ctx
        (rep @ [fl (real (c + 1) / tf)]))) =
        (rep @ [fl (real (c + 1) / tf)]) @ map (\<lambda>k. fl (real (k + 1) / tf)) [c + 1..<j]"
      by blast
    have step: "render_loop fl m tline sf tf c ctx rep =
        render_loop fl m tline sf tf (c + 1) ?ctx (rep @ [fl (real (c + 1) / tf)])"
      using True p run by (intro render_loop_step) simp_all
    have "[c..<max j (c + 1)] = c # [c + 1..<j]"
      by (cases "c + 1 \<le> j") (simp_all add: upt_conv_Cons max_def)
    then have "snd (snd (render_loop fl m tline sf tf c ctx rep)) =
        rep @ map (\<lambda>k. fl (real (k + 1) / tf)) [c..<max j (c + 1)]"
      unfolding step j by simp
    then show ?thesis ..
  next
    case False
    then have "\<not> (0 \<le> \<lfloor>fl (real c / sf)\<rfloor> \<and> nat \<lfloor>fl (real c / sf)\<rfloor> < length tline) \<or>
         palette (tline ! nat \<lfloor>fl (real c / sf)\<rfloor>) = None"
      by blast
    with run have "render_loop fl m tline sf tf c ctx rep = (Some TypeError, ctx, rep)"
      by (rule render_loop_throws)
    then have "snd (snd (render_loop fl m tline sf tf c ctx rep)) =
        rep @ map (\<lambda>k. fl (real (k + 1) / tf)) [c..<c]"
      by simp
    then show ?thesis ..
  qed
qed


lemma slice_in_range:
  fixes fl :: "real \<Rightarrow> real" and S :: real and n N c :: nat
  assumes mono: "\<And>x y. x \<le> y \<Longrightarrow> fl x \<le> fl y"
    and exact: "\<And>m k :: nat. m < 2 ^ 53 \<Longrightarrow> k \<le> 1074 \<Longrightarrow> fl (real m / 2 ^ k) = real m / 2 ^ k"
    and T: "fl (S * real n) = real N"
    and small: "n * N < 2 ^ 51"
    and c: "c < N"
  shows "0 \<le> \<lfloor>fl (real c / S)\<rfloor> \<and> nat \<lfloor>fl (real c / S)\<rfloor> < n"
proof -
  have fl0: "fl 0 = 0"
    using exact [of 0 0] by simp
  have N1: "1 \<le> N"
    using c by simp
  have n1: "1 \<le> n"
  proof (rule ccontr)
    assume "\<not> 1 \<le> n"
    then have "n = 0" by simp
    with T fl0 have "real N = 0" by simp
    with N1 show False by simp
  qed
  have "N \<le> n * N"
    using n1 by simp
  from this small have N51: "N < 2 ^ 51"
    by (rule le_less_trans)
  have Spos: "0 < S"
  proof (rule ccontr)
    assume "\<not> 0 < S"
    then have "S * real n \<le> 0"
      by (simp add: mult_le_0_iff)
    then have "fl (S * real n) \<le> fl 0"
      by (rule mono)
    with T fl0 N1 show False by simp
  qed
  have half: "real N - 1 / 2 < S * real n"
  proof (rule ccontr)
    assume "\<not> real N - 1 / 2 < S * real n"
    then have "S * real n \<le> real (2 * N - 1) / 2 ^ 1"
      using N1 by (simp add: of_nat_diff field_simps)
    then have "fl (S * real n) \<le> fl (real (2 * N - 1) / 2 ^ 1)"
      by (rule mono)
    also have "\<dots> = real (2 * N - 1) / 2 ^ 1"
      using N51 by (intro exact) simp_all
    finally have "real N \<le> real (2 * N - 1) / 2"
      using T by simp
    then show False
      using N1 by (simp add: of_nat_diff field_simps)
  qed
  have "2 \<le> 2 * N"
    using N1 by simp
  from ex_power_ivl2 [OF _ this, of 2] obtain i :: nat
    where i: "2 ^ i < 2 * N" "2 * N \<le> 2 ^ (i + 1)"
    by auto
  define j where "j = i + 1"
  have j_lo: "2 * N \<le> 2 ^ j" and j_hi: "(2::nat) ^ j < 4 * N"
    using i by (simp_all add: j_def)
  have "4 * N < 4 * 2 ^ 51"
    using N51 by (simp only: mult_less_cancel1) simp
  also have "4 * 2 ^ 51 = (2::nat) ^ 53"
    by simp
  finally have "(2::nat) ^ j < 2 ^ 53"
    using j_hi by (rule less_trans [rotated])
  have "j < 53"
  proof (rule power_less_imp_less_exp)
    show "(1::nat) < 2" by simp
    show "(2::nat) ^ j < 2 ^ 53" by fact
  qed
  then have j1074: "j \<le> 1074"
    by simp
  define mm where "mm = n * 2 ^ j - 1"
  have "n * 2 ^ j < n * (4 * N)"
    using j_hi n1 by simp
  also have "\<dots> = 4 * (n * N)"
    by simp
  also have "\<dots> < 4 * 2 ^ 51"
    using small by (simp only: mult_less_cancel1) simp
  also have "4 * 2 ^ 51 = (2::nat) ^ 53"
    by simp
  finally have "n * 2 ^ j < 2 ^ 53" .
  then have mm53: "mm < 2 ^ 53"
    unfolding mm_def by (rule less_imp_diff_less)
  have "1 \<le> n * 2 ^ j"
    using n1 by (simp add: Suc_le_eq)
  then have mm: "real mm = real n * 2 ^ j - 1"
    by (simp add: mm_def of_nat_diff)
  define r where "r = real mm / 2 ^ j"
  have r: "r = real n - 1 / 2 ^ j"
    by (simp add: r_def mm field_simps)
  have flr: "fl r = r"
    unfolding r_def using mm53 j1074 by (rule exact)
  have r_lt: "r < real n"
    by (simp add: r)
  have "real c / S \<le> r"
  proof -
    have a: "1 / (real n * 2 ^ j) \<le> 1 / (2 * real N)"
    proof -
      have "2 * real N \<le> real n * 2 ^ j"
      proof -
        have "real (2 * N) \<le> real (2 ^ j)"
          using j_lo by (simp only: of_nat_le_iff)
        also have "\<dots> \<le> real n * real (2 ^ j)"
          using n1 by (simp add: mult_le_cancel_right1)
        finally show ?thesis by simp
      qed
      moreover have "0 < 2 * real N"
        using N1 by simp
      ultimately show ?thesis
        by (intro divide_left_mono) simp_all
    qed
    have b: "0 < 1 - 1 / (2 * real N)"
      using N1 by (simp add: field_simps)
    have "c + 1 \<le> N"
      using c by simp
    then have "real (c + 1) \<le> real N"
      by (simp only: of_nat_le_iff)
    then have "real c \<le> real N - 1"
      by simp
    also have "\<dots> < real N - 1 + 1 / (4 * real N)"
      using N1 by simp
    also have "\<dots> = (real N - 1 / 2) * (1 - 1 / (2 * real N))"
      using N1 by (simp add: field_simps)
    also have "\<dots> \<le> (S * real n) * (1 - 1 / (2 * real N))"
      using half b by (intro mult_right_mono) simp_all
    also have "\<dots> \<le> (S * real n) * (1 - 1 / (real n * 2 ^ j))"
      using a Spos n1 by (intro mult_left_mono) simp_all
    also have "\<dots> = r * S"
      using n1 by (simp add: r field_simps)
    finally have "real c \<le> r * S"
      by simp
    then show ?thesis
      using Spos by (simp add: pos_divide_le_eq)
  qed
  then have "fl (real c / S) \<le> fl r"
    by (rule mono)
  with flr r_lt have up: "fl (real c / S) < real n"
    by simp
  have "0 \<le> real c / S"
    using Spos by simp
  then have "fl 0 \<le> fl (real c / S)"
    by (rule mono)
  with fl0 have lo: "0 \<le> fl (real c / S)"
    by simp
  from up have "\<lfloor>fl (real c / S)\<rfloor> < int n"
    by (simp add: floor_less_iff)
  with lo show ?thesis
    by (simp add: nat_less_iff)
qed


lemma whole_run:
  fixes fl :: "real \<Rightarrow> real"
  assumes mono: "\<And>x y. x \<le> y \<Longrightarrow> fl x \<le> fl y"
    and exact: "\<And>m k :: nat. m < 2 ^ 53 \<Longrightarrow> k \<le> 1074 \<Longrightarrow> fl (real m / 2 ^ k) = real m / 2 ^ k"
    and T: "fl (S * real (length tline)) = real N"
    and small: "length tline * N < 2 ^ 51"
    and palettes: "\<forall>s\<in>set tline. palette s \<noteq> None"
  shows "fst (render_loop fl m tline S (real N) c ctx rep) = None \<and>
         snd (snd (render_loop fl m tline S (real N) c ctx rep)) =
           rep @ map (\<lambda>k. fl (real (k + 1) / real N)) [c..<N]"
proof (induction "N - c" arbitrary: c ctx rep)
  case 0
  then have "\<not> real c < real N" and "[c..<N] = []"
    by simp_all
  then show ?case
    by (simp add: render_loop_stops)
next
  case (Suc d)
  then have lt: "c < N"
    by simp
  then have run: "real c < real N"
    by simp
  from slice_in_range [OF mono exact T small lt]
  have inr: "0 \<le> \<lfloor>fl (real c / S)\<rfloor>" "nat \<lfloor>fl (real c / S)\<rfloor> < length tline"
    by simp_all
  from inr(2) palettes obtain colors
    where p: "palette (tline ! nat \<lfloor>fl (real c / S)\<rfloor>) = Some colors"
    by (metis not_None_eq nth_mem)
  have d: "d = N - (c + 1)"
    using Suc.hyps(2) by simp
  have up: "[c..<N] = c # [c + 1..<N]"
    using lt by (simp add: upt_conv_Cons)
  have step: "render_loop fl m tline S (real N) c ctx rep =
      render_loop fl m tline S (real N) (c + 1)
        (draw_frame m (tline ! nat \<lfloor>fl (real c / S)\<rfloor>) (fl (js_rem (real c) S / S)) ctx)
        (rep @ [fl (real (c + 1) / real N)])"
    using run inr p by (rule render_loop_step [where fl = fl])
  show ?case
    unfolding step using Suc.hyps(1) [OF d] by (simp add: up)
qed

lemma whole_reports:
  fixes fl :: "real \<Rightarrow> real" and N :: nat
  assumes mono: "\<And>x y. x \<le> y \<Longrightarrow> fl x \<le> fl y"
    and fl0: "fl 0 = 0" and fl1: "fl 1 = 1" and N: "0 < N"
  defines "reports \<equiv> map (\<lambda>k. fl (real (k + 1) / real N)) [0..<N]"
  shows "length reports = N"
    and "\<forall>r\<in>set reports. 0 \<le> r \<and> r \<le> 1"
    and "last reports = 1"
proof -
  show "length reports = N"
    by (simp add: reports_def)
  show "\<forall>r\<in>set reports. 0 \<le> r \<and> r \<le> 1"
  proof
    fix r
    assume "r \<in> set reports"
    then obtain k where k: "k < N" and r: "r = fl (real (k + 1) / real N)"
      by (auto simp: reports_def)
    have lo: "0 \<le> real (k + 1) / real N" and hi: "real (k + 1) / real N \<le> 1"
      using k by (simp_all add: divide_le_eq_1)
    have "fl 0 \<le> r" and "r \<le> fl 1"
      unfolding r using lo hi by (simp_all only: mono)
    then show "0 \<le> r \<and> r \<le> 1"
      by (simp add: fl0 fl1)
  qed
  have "last reports = fl (real (last [0..<N] + 1) / real N)"
    using N by (simp add: reports_def last_map)
  also have "last [0..<N] = N - 1"
    using N by (simp add: last_upt)
  finally show "last reports = 1"
    using N by (simp add: fl1)
qed

lemma emitted_sorted:
  fixes fl :: "real \<Rightarrow> real"
  assumes mono: "\<And>x y. x \<le> y \<Longrightarrow> fl x \<le> fl y" and "0 \<le> tf"
  shows "sorted (map (\<lambda>k. fl (real (k + 1) / tf)) [0..<j])"
  unfolding sorted_iff_nth_mono
proof (intro allI impI)
  fix a b
  assume "a \<le> b" and "b < length (map (\<lambda>k. fl (real (k + 1) / tf)) [0..<j])"
  then have a: "a < j" and b: "b < j"
    by simp_all
  have "real (a + 1) / tf \<le> real (b + 1) / tf"
    using \<open>a \<le> b\<close> assms(2) by (intro divide_right_mono) simp_all
  then have "fl (real (a + 1) / tf) \<le> fl (real (b + 1) / tf)"
    by (rule mono)
  then show "map (\<lambda>k. fl (real (k + 1) / tf)) [0..<j] ! a \<le>
      map (\<lambda>k. fl (real (k + 1) / tf)) [0..<j] ! b"
    using a b by simp
qed


lemma whole_product:
  assumes "0 < x" and "x \<in> \<int>"
  obtains n :: nat where "x = real n" and "0 < n"
proof -
  from assms(2) obtain z :: int where z: "x = of_int z"
    by (rule Ints_cases)
  with assms(1) have "0 < z"
    by simp
  then have "x = real (nat z)" and "0 < nat z"
    using z by simp_all
  then show thesis
    by (rule that)
qed

text \<open>
  With three frames a second and half a second a slice, the frames of a slice are 3/2:
  the product as it is, not the product rounded down.
\<close>

theorem segmentFrames_not_rounded:
  "0 < fps \<lparr>fps = 3, segmentSeconds = 1 / 2, style = ''cosmic''\<rparr> \<and>
   0 < segmentSeconds \<lparr>fps = 3, segmentSeconds = 1 / 2, style = ''cosmic''\<rparr> \<and>
   segmentFrames \<lparr>fps = 3, segmentSeconds = 1 / 2, style = ''cosmic''\<rparr> = 3 / 2 \<and>
   real_of_int \<lfloor>(3::real) * (1 / 2)\<rfloor> = 1"
  by (simp add: segmentFrames_def)

text \<open>
  Claim C2, as the code has it. The frames of a slice are the product of the frames per
  second and the seconds per slice, and the frames of the run are that product times the
  number of slices; nothing is rounded. When both factors are positive and the product is
  a whole number, it is its own rounding down and at least 1. With 24 frames a second, 3
  seconds a slice and 5 slices the run has 360 frames.
\<close>

theorem segmentFrames_whole:
  assumes "0 < fps c" and "0 < segmentSeconds c" and "fps c * segmentSeconds c \<in> \<int>"
  shows "segmentFrames c = fps c * segmentSeconds c \<and>
         segmentFrames c = of_int \<lfloor>fps c * segmentSeconds c\<rfloor> \<and>
         1 \<le> \<lfloor>fps c * segmentSeconds c\<rfloor> \<and>
         totalFrames c tline = of_int \<lfloor>fps c * segmentSeconds c\<rfloor> * real (length tline) \<and>
         (fps c = 24 \<and> segmentSeconds c = 3 \<and> length tline = 5 \<longrightarrow> totalFrames c tline = 360)"
proof -
  have "0 < fps c * segmentSeconds c"
    using assms(1,2) by simp
  from this assms(3) obtain n :: nat where n: "fps c * segmentSeconds c = real n" and "0 < n"
    by (rule whole_product)
  then show ?thesis
    by (simp add: segmentFrames_def totalFrames_def)
qed

theorem segmentFrames_whole_witness:
  "(24::real) * 3 \<in> \<int> \<and>
   segmentFrames \<lparr>fps = 24, segmentSeconds = 3, style = ''cosmic''\<rparr> = 72 \<and>
   totalFrames \<lparr>fps = 24, segmentSeconds = 3, style = ''cosmic''\<rparr>
     (replicate 5 \<lparr>sentence = str ''Hi'', index = 0, palette = Some (''#1b0033'', ''#5c00b3'')\<rparr>) = 360"
  using segmentFrames_whole [of "\<lparr>fps = 24, segmentSeconds = 3, style = ''cosmic''\<rparr>"
      "replicate 5 \<lparr>sentence = str ''Hi'', index = 0, palette = Some (''#1b0033'', ''#5c00b3'')\<rparr>"]
  by simp


text \<open>
  With one frame a second, half a second a slice and one slice, the run has half a frame;
  the loop draws one frame and reports 2. Every product and quotient of this run is a
  number of the format, so the rounding is the identity here.
\<close>

theorem final_report_above_one:
  "snd (snd (renderTimelineToVideo (\<lambda>x. x) (\<lambda>s. real (length s)) page_canvas
     [\<lparr>sentence = str ''Hi'', index = 0, palette = Some (''#1b0033'', ''#5c00b3'')\<rparr>]
     \<lparr>fps = 1, segmentSeconds = 1 / 2, style = ''cosmic''\<rparr>)) = [2]"
proof -
  let ?tline = "[\<lparr>sentence = str ''Hi'', index = 0, palette = Some (''#1b0033'', ''#5c00b3'')\<rparr>]"
  have first: "render_loop (\<lambda>x. x) (\<lambda>s. real (length s)) ?tline (1 / 2) (1 / 2) 0 page_canvas [] =
      render_loop (\<lambda>x. x) (\<lambda>s. real (length s)) ?tline (1 / 2) (1 / 2) (0 + 1)
        (draw_frame (\<lambda>s. real (length s)) (?tline ! nat \<lfloor>real 0 / (1 / 2)\<rfloor>)
          (js_rem (real 0) (1 / 2) / (1 / 2)) page_canvas)
        ([] @ [real (0 + 1) / (1 / 2)])"
    by (rule render_loop_step [where fl = "\<lambda>x. x" and colors = "(''#1b0033'', ''#5c00b3'')"])
      simp_all
  have ctx: "context2d page_canvas"
    by (simp add: page_canvas_def)
  show ?thesis
    by (simp add: renderTimelineToVideo_def ctx segmentFrames_def Let_def first
        render_loop_stops)
qed

text \<open>
  Claim C5, as the code has it. Let \<open>fl\<close> round as double-precision arithmetic does: it
  never reverses an order, and it leaves unchanged every whole number below \<open>2^53\<close>
  divided by a power of two. Then report \<open>k\<close> of a run, counted from 1, is
  \<open>k / totalFrames\<close> as the arithmetic computes it, and the reports never decrease. When
  the computed \<open>totalFrames\<close> is a whole number \<open>N\<close> of at least 1 (the number of
  slices times \<open>N\<close> below \<open>2^51\<close>), the surface has a context and every slice has a
  palette, the run ends without an error, reports once for each of the \<open>N\<close> frames,
  every report lies between 0 and 1, and the last report is 1.
\<close>

theorem progress_reports:
  fixes fl :: "real \<Rightarrow> real"
  assumes mono: "\<And>x y. x \<le> y \<Longrightarrow> fl x \<le> fl y"
    and exact: "\<And>m k :: nat. m < 2 ^ 53 \<Longrightarrow> k \<le> 1074 \<Longrightarrow> fl (real m / 2 ^ k) = real m / 2 ^ k"
  shows "\<exists>reports total.
           total = fl (fl (segmentFrames c) * real (length tline)) \<and>
           snd (snd (renderTimelineToVideo fl m canvas tline c)) = reports \<and>
           (\<forall>k<length reports. reports ! k = fl (real (k + 1) / total)) \<and>
           sorted reports \<and>
           (context2d canvas \<and> (\<forall>s\<in>set tline. palette s \<noteq> None) \<and>
            total = real N \<and> 0 < N \<and> length tline * N < 2 ^ 51 \<longrightarrow>
              fst (renderTimelineToVideo fl m canvas tline c) = None \<and>
              length reports = N \<and> (\<forall>r\<in>set reports. 0 \<le> r \<and> r \<le> 1) \<and>
              last reports = 1)"
proof -
  define S where "S = fl (segmentFrames c)"
  define T where "T = fl (S * real (length tline))"
  define reports where "reports = snd (snd (renderTimelineToVideo fl m canvas tline c))"
  have fl0: "fl 0 = 0"
    using exact [of 0 0] by simp
  have fl1: "fl 1 = 1"
    using exact [of 1 0] by simp
  have run: "renderTimelineToVideo fl m canvas tline c = render_loop fl m tline S T 0 canvas []"
    if "context2d canvas"
    using that by (simp add: renderTimelineToVideo_def S_def T_def Let_def)
  have "\<exists>j. reports = map (\<lambda>k. fl (real (k + 1) / T)) [0..<j] \<and> (j = 0 \<or> 0 < T)"
  proof (cases "context2d canvas \<and> 0 < T")
    case True
    from render_loop_emitted [of fl m tline S T 0 canvas "[]"] obtain j
      where "snd (snd (render_loop fl m tline S T 0 canvas [])) =
        map (\<lambda>k. fl (real (k + 1) / T)) [0..<j]"
      by auto
    with True show ?thesis
      by (auto simp: reports_def run)
  next
    case False
    have "reports = []"
    proof (cases "context2d canvas")
      case True
      with False have "\<not> real 0 < T"
        by simp
      then show ?thesis
        by (simp add: reports_def run [OF True] render_loop_stops)
    next
      case no: False
      then show ?thesis
        by (simp add: reports_def renderTimelineToVideo_def)
    qed
    then show ?thesis
      by (intro exI [of _ 0]) simp
  qed
  then obtain j where emitted: "reports = map (\<lambda>k. fl (real (k + 1) / T)) [0..<j]"
    and j: "j = 0 \<or> 0 < T"
    by blast
  have nth: "\<forall>k<length reports. reports ! k = fl (real (k + 1) / T)"
    by (simp add: emitted)
  have sorted: "sorted reports"
  proof (cases "j = 0")
    case True
    then show ?thesis by (simp add: emitted)
  next
    case False
    with j have "0 \<le> T" by simp
    with mono show ?thesis
      unfolding emitted by (rule emitted_sorted)
  qed
  have whole: "fst (renderTimelineToVideo fl m canvas tline c) = None \<and>
      length reports = N \<and> (\<forall>r\<in>set reports. 0 \<le> r \<and> r \<le> 1) \<and> last reports = 1"
    if ctx: "context2d canvas" and pal: "\<forall>s\<in>set tline. palette s \<noteq> None"
      and TN: "T = real N" and N: "0 < N" and small: "length tline * N < 2 ^ 51"
  proof -
    have T': "fl (S * real (length tline)) = real N"
      using TN by (simp add: T_def)
    from whole_run [OF mono exact T' small pal, of m 0 canvas "[]"]
    have ok: "fst (render_loop fl m tline S (real N) 0 canvas []) = None"
      and reps: "snd (snd (render_loop fl m tline S (real N) 0 canvas [])) =
        map (\<lambda>k. fl (real (k + 1) / real N)) [0..<N]"
      by simp_all
    have r: "reports = map (\<lambda>k. fl (real (k + 1) / real N)) [0..<N]"
      using reps by (simp add: reports_def run [OF ctx] TN)
    from whole_reports [OF mono fl0 fl1 N] ok show ?thesis
      unfolding r by (simp add: run [OF ctx] TN)
  qed
  show ?thesis
    using nth sorted whole
    by (intro exI [of _ reports] exI [of _ T]) (auto simp: T_def S_def reports_def)
qed


theorem progress_reports_witness:
  "context2d page_canvas \<and>
   fst (renderTimelineToVideo (\<lambda>x. x) (\<lambda>s. real (length s)) page_canvas
     [\<lparr>sentence = str ''Hi'', index = 0, palette = Some (''#1b0033'', ''#5c00b3'')\<rparr>,
      \<lparr>sentence = str ''Yo'', index = 1, palette = Some (''#0b1a4a'', ''#170e75'')\<rparr>]
     \<lparr>fps = 3, segmentSeconds = 1 / 2, style = ''cosmic''\<rparr>) = None \<and>
   length (snd (snd (renderTimelineToVideo (\<lambda>x. x) (\<lambda>s. real (length s)) page_canvas
     [\<lparr>sentence = str ''Hi'', index = 0, palette = Some (''#1b0033'', ''#5c00b3'')\<rparr>,
      \<lparr>sentence = str ''Yo'', index = 1, palette = Some (''#0b1a4a'', ''#170e75'')\<rparr>]
     \<lparr>fps = 3, segmentSeconds = 1 / 2, style = ''cosmic''\<rparr>))) = 3 \<and>
   last (snd (snd (renderTimelineToVideo (\<lambda>x. x) (\<lambda>s. real (length s)) page_canvas
     [\<lparr>sentence = str ''Hi'', index = 0, palette = Some (''#1b0033'', ''#5c00b3'')\<rparr>,
      \<lparr>sentence = str ''Yo'', index = 1, palette = Some (''#0b1a4a'', ''#170e75'')\<rparr>]
     \<lparr>fps = 3, segmentSeconds = 1 / 2, style = ''cosmic''\<rparr>))) = 1"
proof -
  let ?c = "\<lparr>fps = 3, segmentSeconds = 1 / 2, style = ''cosmic''\<rparr>"
  let ?tline = "[\<lparr>sentence = str ''Hi'', index = 0, palette = Some (''#1b0033'', ''#5c00b3'')\<rparr>,
      \<lparr>sentence = str ''Yo'', index = 1, palette = Some (''#0b1a4a'', ''#170e75'')\<rparr>]"
  have ctx: "context2d page_canvas"
    by (simp add: page_canvas_def)
  have total: "segmentFrames ?c * real (length ?tline) = real 3"
    by (simp add: segmentFrames_def)
  have pal: "\<forall>s\<in>set ?tline. palette s \<noteq> None"
    by simp
  have small: "length ?tline * 3 < 2 ^ 51"
    by simp
  from progress_reports [where fl = "\<lambda>x. x" and c = ?c and tline = ?tline
      and m = "\<lambda>s. real (length s)" and canvas = page_canvas and N = 3]
    ctx total pal small
  show ?thesis
    by auto
qed


section \<open>The page: object URLs and phases\<close>

lemma default_prompt_sentences:
  "splitSentences DEFAULT_PROMPT =
     [str ''A flowing introduction for an AI demo reel that highlights innovation, creativity, and futuristic design with subtle particle motion and layered typography'']"
  by (simp add: DEFAULT_PROMPT_def splitSentences_def str_def split_run.simps
        is_terminator_def trim_def is_whitespace_def)

lemma canGenerate_default: "prompt s = DEFAULT_PROMPT \<Longrightarrow> canGenerate s"
  by (simp add: canGenerate_def sentences_def default_prompt_sentences)

lemma commit_fields:
  "phase (commit a b) = phase b"
  "phases_set (commit a b) = phases_set b"
  "awaiting_render (commit a b) = awaiting_render b"
  "awaiting_blob (commit a b) = awaiting_blob b"
  "prompt (commit a b) = prompt b"
  "videoUrl (commit a b) = videoUrl b"
  by (simp_all add: commit_def revokeObjectURL_def split: option.split)

lemmas page_defs =
  handleGenerate_def render_settled_def blob_settled_def reset_def onProgress_def
  commit_def setPhase_def revokeObjectURL_def createObjectURL_def fresh_url_def

lemma second_click:
  "run [ClickRender None, RenderSettled None, BlobSettled None, ClickRender None] initial =
     Some (initial\<lparr>phase := Rendering, progress := 0, videoUrl := None,
             url_calls := [Create 0, Revoke 0, Revoke 0],
             phases_set := [Preparing, Rendering, Encoding, Complete, Preparing, Rendering],
             awaiting_render := 1\<rparr>)"
  by (simp add: canGenerate_default page_defs Let_def initial_def)

text \<open>
  Claim C7. A generate action started while an exported object URL exists is to revoke
  that URL exactly once before the next URL is created. A first run exports URL 0; the
  second run revokes it twice before URL 1 is created: once in \<^verbatim>\<open>handleGenerate\<close>
  itself and once in the cleanup of the effect.
\<close>

theorem prior_url_revoked_twice:
  "map_option url_calls
     (run [ClickRender None, RenderSettled None, BlobSettled None,
           ClickRender None, RenderSettled None, BlobSettled None] initial) =
   Some [Create 0, Revoke 0, Revoke 0, Create 1]"
  by (simp add: canGenerate_default page_defs Let_def initial_def)

text \<open>
  In general: when a generate action starts while \<^verbatim>\<open>videoUrl\<close> holds a URL, that URL
  is revoked twice in the first stretch of the action, by \<^verbatim>\<open>handleGenerate\<close> and by
  the cleanup of the effect, which runs because \<^verbatim>\<open>videoUrl\<close> has become \<^verbatim>\<open>null\<close>.
  No URL is created in between; the new URL is created when the recording has settled.
\<close>

lemma prior_url_revoked:
  assumes "videoUrl s = Some u" and "canGenerate s"
  shows "url_calls (handleGenerate fault s) = url_calls s @ [Revoke u, Revoke u] \<and>
         videoUrl (handleGenerate fault s) = None \<and>
         url_calls (blob_settled None (render_settled None (handleGenerate None s))) =
           url_calls s @ [Revoke u, Revoke u, Create (fresh_url s)]"
  using assms
  by (simp add: page_defs Let_def split: option.split)

lemma extend_transitions:
  assumes "successively page_transition (Idle # ps)"
    and "last (Idle # ps) = a"
    and "successively page_transition (a # new)"
  shows "successively page_transition (Idle # ps @ new)"
proof -
  have "successively page_transition ((Idle # ps) @ new)"
    unfolding successively_append_iff
    using assms by (cases new) auto
  then show ?thesis by simp
qed

lemma handleGenerate_phases:
  assumes "canGenerate s"
  shows "phases_set (handleGenerate fault s) =
           phases_set s @ [Preparing, case fault of None \<Rightarrow> Rendering | Some e \<Rightarrow> Error]"
    and "phase (handleGenerate fault s) = (case fault of None \<Rightarrow> Rendering | Some e \<Rightarrow> Error)"
    and "awaiting_render (handleGenerate fault s) =
           awaiting_render s + (case fault of None \<Rightarrow> 1 | Some e \<Rightarrow> 0)"
    and "awaiting_blob (handleGenerate fault s) = awaiting_blob s"
  using assms
  by (simp_all add: handleGenerate_def Let_def commit_fields setPhase_def revokeObjectURL_def
        split: option.split)

lemma render_settled_phases:
  "phases_set (render_settled thrown s) =
     phases_set s @ [case thrown of None \<Rightarrow> Encoding | Some e \<Rightarrow> Error]"
  "phase (render_settled thrown s) = (case thrown of None \<Rightarrow> Encoding | Some e \<Rightarrow> Error)"
  "awaiting_render (render_settled thrown s) = awaiting_render s - 1"
  "awaiting_blob (render_settled thrown s) =
     awaiting_blob s + (case thrown of None \<Rightarrow> 1 | Some e \<Rightarrow> 0)"
  by (simp_all add: render_settled_def Let_def commit_fields setPhase_def split: option.split)

lemma blob_settled_phases:
  "phases_set (blob_settled thrown s) =
     phases_set s @ [case thrown of None \<Rightarrow> Complete | Some e \<Rightarrow> Error]"
  "phase (blob_settled thrown s) = (case thrown of None \<Rightarrow> Complete | Some e \<Rightarrow> Error)"
  "awaiting_render (blob_settled thrown s) = awaiting_render s"
  "awaiting_blob (blob_settled thrown s) = awaiting_blob s - 1"
  by (simp_all add: blob_settled_def Let_def commit_fields setPhase_def createObjectURL_def
        split: option.split)

lemma reset_phases:
  "phases_set (reset s) = phases_set s @ [Idle]"
  "phase (reset s) = Idle"
  "awaiting_render (reset s) = awaiting_render s"
  "awaiting_blob (reset s) = awaiting_blob s"
  by (simp_all add: reset_def commit_fields setPhase_def)

lemma fire_keeps:
  assumes inv: "settled s" "successively page_transition (Idle # phases_set s)"
    and f: "fire e s = Some s'"
    and calm: "e = ClickReset \<longrightarrow> awaiting_render s = 0 \<and> awaiting_blob s = 0"
  shows "settled s' \<and> successively page_transition (Idle # phases_set s')"
proof -
  have l: "last (Idle # phases_set s) = phase s"
    using inv(1) unfolding settled_def by blast
  show ?thesis
  proof (cases e)
  case (ClickRender fault)
  with f have g: "canGenerate s" and p: "phase s \<noteq> Rendering" "phase s \<noteq> Encoding"
    and s': "s' = handleGenerate fault s"
    by (auto split: if_splits)
  from inv(1) p have start: "page_transition (phase s) Preparing"
    by (cases "phase s") (simp_all add: settled_def)
  have "successively page_transition (phase s # [Preparing, case fault of None \<Rightarrow> Rendering | Some e \<Rightarrow> Error])"
    using start by (simp split: option.split)
  from extend_transitions [OF inv(2) l this]
  have "successively page_transition (Idle # phases_set s')"
    unfolding s' handleGenerate_phases(1) [OF g] .
  moreover have "settled s'"
    using inv(1) p unfolding s' settled_def
    by (simp add: handleGenerate_phases [OF g] split: option.split)
  ultimately show ?thesis by simp
next
  case (FrameDrawn ratio)
  with f have "s' = onProgress ratio s"
    by (auto split: if_splits)
  with inv show ?thesis
    by (simp add: onProgress_def settled_def)
next
  case (RenderSettled thrown)
  with f have a: "0 < awaiting_render s" and s': "s' = render_settled thrown s"
    by (auto split: if_splits)
  from inv(1) a have p: "phase s = Rendering"
    by (auto simp: settled_def split: if_splits)
  have "successively page_transition (phase s # [case thrown of None \<Rightarrow> Encoding | Some e \<Rightarrow> Error])"
    using p by (simp split: option.split)
  from extend_transitions [OF inv(2) l this]
  have "successively page_transition (Idle # phases_set s')"
    unfolding s' render_settled_phases(1) .
  moreover have "settled s'"
    using inv(1) p unfolding s' settled_def
    by (simp add: render_settled_phases split: option.split)
  ultimately show ?thesis by simp
next
  case (BlobSettled thrown)
  with f have a: "0 < awaiting_blob s" and s': "s' = blob_settled thrown s"
    by (auto split: if_splits)
  from inv(1) a have p: "phase s = Encoding"
    by (auto simp: settled_def split: if_splits)
  have "successively page_transition (phase s # [case thrown of None \<Rightarrow> Complete | Some e \<Rightarrow> Error])"
    using p by (simp split: option.split)
  from extend_transitions [OF inv(2) l this]
  have "successively page_transition (Idle # phases_set s')"
    unfolding s' blob_settled_phases(1) .
  moreover have "settled s'"
    using inv(1) p unfolding s' settled_def
    by (simp add: blob_settled_phases split: option.split)
  ultimately show ?thesis by simp
next
  case ClickReset
  with f have s': "s' = reset s"
    by simp
  from calm ClickReset have none: "awaiting_render s = 0" "awaiting_blob s = 0"
    by simp_all
  have "successively page_transition (phase s # [Idle])"
    by simp
  from extend_transitions [OF inv(2) l this]
  have "successively page_transition (Idle # phases_set s')"
    unfolding s' reset_phases(1) .
  moreover have "settled s'"
    using none unfolding s' settled_def by (simp add: reset_phases)
  ultimately show ?thesis by simp
next
  case (EditPrompt t)
  with f inv show ?thesis
    by (auto simp: settled_def)
next
  case (ChooseSettings g)
  with f inv show ?thesis
    by (auto simp: settled_def)
  qed
qed

lemma run_keeps:
  assumes "settled s" and "successively page_transition (Idle # phases_set s)"
    and "run evs s = Some s'" and "undisturbed evs s"
  shows "settled s' \<and> successively page_transition (Idle # phases_set s')"
  using assms
proof (induction evs arbitrary: s)
  case Nil
  then show ?case by simp
next
  case (Cons e evs)
  from Cons.prems(3) obtain s1 where f: "fire e s = Some s1" and r: "run evs s1 = Some s'"
    by (auto split: option.splits)
  from Cons.prems(4) f have calm: "e = ClickReset \<longrightarrow> awaiting_render s = 0 \<and> awaiting_blob s = 0"
    and u: "undisturbed evs s1"
    by simp_all
  from fire_keeps [OF Cons.prems(1,2) f calm] Cons.IH [OF _ _ r u] show ?case
    by blast
qed

lemma initial_settled: "settled initial \<and> successively page_transition (Idle # phases_set initial)"
  by (simp add: settled_def initial_def)


text \<open>
  After a run has completed, the next click on Render takes the phase from complete to
  preparing; and a click on Reset during a run takes it from rendering to idle. Neither is
  a transition of the specification's list.
\<close>

theorem phase_leaves_the_chain:
  "map_option phases_set
     (run [ClickRender None, RenderSettled None, BlobSettled None, ClickRender None] initial) =
     Some [Preparing, Rendering, Encoding, Complete, Preparing, Rendering] \<and>
   \<not> spec_transition Complete Preparing \<and>
   map_option phases_set (run [ClickRender None, ClickReset] initial) =
     Some [Preparing, Rendering, Idle] \<and>
   \<not> spec_transition Rendering Idle"
  by (simp add: second_click spec_transition_def canGenerate_default page_defs Let_def
        initial_def)

text \<open>
  Claim C9, as the code has it. As long as Reset is not clicked while a call of
  \<^verbatim>\<open>handleGenerate\<close> is suspended, every change of the phase is one of these: from
  idle, complete or error to preparing (a run starts); from preparing to rendering, from
  rendering to encoding, from encoding to complete (a run advances by one stage); from
  preparing, rendering or encoding to error; or to idle (Reset). Reset sets the phase to
  idle in every state.
\<close>

theorem phase_transitions:
  assumes "run evs initial = Some s" and "undisturbed evs initial"
  shows "successively page_transition (Idle # phases_set s) \<and>
         phase s = last (Idle # phases_set s) \<and>
         phase (reset t) = Idle"
  using run_keeps [OF _ _ assms] initial_settled
  by (simp add: settled_def reset_phases)

theorem phase_transitions_witness:
  "undisturbed [ClickRender None, RenderSettled None, BlobSettled None, ClickRender None] initial \<and>
   successively page_transition
     [Idle, Preparing, Rendering, Encoding, Complete, Preparing, Rendering] \<and>
   phase (the (run [ClickRender None, RenderSettled None, BlobSettled None, ClickRender None]
     initial)) = Rendering"
proof -
  let ?evs = "[ClickRender None, RenderSettled None, BlobSettled None, ClickRender None]"
  let ?s = "initial\<lparr>phase := Rendering, progress := 0, videoUrl := None,
             url_calls := [Create 0, Revoke 0, Revoke 0],
             phases_set := [Preparing, Rendering, Encoding, Complete, Preparing, Rendering],
             awaiting_render := 1\<rparr>"
  have r: "run ?evs initial = Some ?s"
    by (rule second_click)
  have u: "undisturbed ?evs initial"
    by (simp add: canGenerate_default page_defs Let_def initial_def)
  from phase_transitions [OF r u] u show ?thesis
    unfolding r by simp
qed

end
